theory Spec2Isabelle
  imports Complex_Main "HOL-Library.Stream" "HOL-Library.AList"
begin

section \<open>Python values\<close>

text \<open>
  The two modules \<^verbatim>\<open>mcts_vanilla.py\<close> and \<^verbatim>\<open>mcts_modified.py\<close> are embedded side by
  side; a function of the first carries the suffix \<open>_v\<close>, one of the second the suffix
  \<open>_m\<close>. \<^verbatim>\<open>expand_leaf\<close> and \<^verbatim>\<open>backpropagate\<close> are the same text in both modules and
  are embedded once.

  Python floats are modelled as real numbers, extended by the two infinities that the code
  writes as \<^verbatim>\<open>float('inf')\<close> and \<^verbatim>\<open>float('-inf')\<close>. Exceptions are values of type
  \<open>error\<close>.
\<close>

datatype error = ValueError | IndexError | KeyError | TypeError | AttributeError

datatype pyfloat = NInf | Fin real | PInf

instantiation pyfloat :: linorder
begin

definition less_eq_pyfloat :: "pyfloat \<Rightarrow> pyfloat \<Rightarrow> bool" where
  "less_eq_pyfloat x y =
     (case x of
        NInf \<Rightarrow> True
      | Fin a \<Rightarrow> (case y of NInf \<Rightarrow> False | Fin b \<Rightarrow> a \<le> b | PInf \<Rightarrow> True)
      | PInf \<Rightarrow> (case y of PInf \<Rightarrow> True | _ \<Rightarrow> False))"

definition less_pyfloat :: "pyfloat \<Rightarrow> pyfloat \<Rightarrow> bool" where
  "less_pyfloat x y = (x \<le> y \<and> \<not> y \<le> (x::pyfloat))"

instance
proof
  fix x y z :: pyfloat
  show "(x < y) = (x \<le> y \<and> \<not> y \<le> x)"
    by (simp add: less_pyfloat_def)
  show "x \<le> x"
    by (simp add: less_eq_pyfloat_def split: pyfloat.splits)
  show "x \<le> y \<Longrightarrow> y \<le> z \<Longrightarrow> x \<le> z"
    by (auto simp: less_eq_pyfloat_def split: pyfloat.splits)
  show "x \<le> y \<Longrightarrow> y \<le> x \<Longrightarrow> x = y"
    by (auto simp: less_eq_pyfloat_def split: pyfloat.splits)
  show "x \<le> y \<or> y \<le> x"
    by (auto simp: less_eq_pyfloat_def split: pyfloat.splits)
qed

end

text \<open>\<^verbatim>\<open>math.log\<close> and \<^verbatim>\<open>math.sqrt\<close> raise \<^verbatim>\<open>ValueError\<close> outside their domain.\<close>

definition math_log :: "real \<Rightarrow> error + real" where
  "math_log x = (if x \<le> 0 then Inl ValueError else Inr (ln x))"

definition math_sqrt :: "real \<Rightarrow> error + real" where
  "math_sqrt x = (if x < 0 then Inl ValueError else Inr (sqrt x))"

text \<open>
  \<^verbatim>\<open>random.choice(seq)\<close>: the process-wide random source is a stream of naturals; one draw
  takes the head of the stream, reduced to an index of the sequence. An empty sequence
  raises \<^verbatim>\<open>IndexError\<close>.
\<close>

definition choice :: "nat stream \<Rightarrow> 'x list \<Rightarrow> error + ('x \<times> nat stream)" where
  "choice rs seq =
     (if seq = [] then Inl IndexError
      else Inr (seq ! (shd rs mod length seq), stl rs))"

section \<open>The board collaborator\<close>

text \<open>
  The board is a parameter of every function: a record of the five operations the code
  calls. \<^verbatim>\<open>points_values\<close> yields a dictionary from players to scores, or \<^verbatim>\<open>None\<close>.
\<close>

record ('s, 'a, 'p) board =
  is_ended :: "'s \<Rightarrow> bool"
  legal_actions :: "'s \<Rightarrow> 'a list"
  next_state :: "'s \<Rightarrow> 'a \<Rightarrow> 's"
  current_player :: "'s \<Rightarrow> 'p"
  points_values :: "'s \<Rightarrow> ('p \<rightharpoonup> real) option"

section \<open>Search nodes and the store\<close>

text \<open>
  A node object lives at an address of the store. \<^verbatim>\<open>parent\<close> is an optional address,
  \<^verbatim>\<open>child_nodes\<close> a dictionary in insertion order from actions to addresses.
\<close>

record 'a node =
  parent :: "nat option"
  parent_action :: "'a option"
  child_nodes :: "('a \<times> nat) list"
  untried_actions :: "'a list"
  wins :: real
  visits :: nat

text \<open>
  Modelled from the spec: the constructor of class \<^verbatim>\<open>MCTSNode\<close> (module \<^verbatim>\<open>mcts_node\<close> is
  imported by both sources and is not among them). A new node has the given parent,
  parent action and untried actions, no children, and zero visits and wins.
\<close>

definition MCTSNode :: "nat option \<Rightarrow> 'a option \<Rightarrow> 'a list \<Rightarrow> 'a node" where
  "MCTSNode p pa action_list =
     \<lparr>parent = p, parent_action = pa, child_nodes = [], untried_actions = action_list,
      wins = 0, visits = 0\<rparr>"

record 'a heap =
  cells :: "nat \<Rightarrow> 'a node"
  next_free :: nat

section \<open>UCB\<close>

definition explore_faction :: real where
  "explore_faction = sqrt 2"

definition explore_factor :: real where
  "explore_factor = 9 / 10"

text \<open>\<^verbatim>\<open>ucb\<close> of \<^verbatim>\<open>mcts_vanilla.py\<close>; the identity is the bot's player number.\<close>

definition ucb_v :: "'a node \<Rightarrow> 'a node \<Rightarrow> int \<Rightarrow> error + pyfloat" where
  "ucb_v nd par identity =
     (if visits nd = 0 then Inr PInf
      else
        let win_rate = wins nd / real (visits nd);
            win_rate = (if int (visits par) mod 2 \<noteq> identity - 1
                        then 1 - win_rate else win_rate)
        in case math_log (real (visits par)) of
             Inl e \<Rightarrow> Inl e
           | Inr l \<Rightarrow>
               (case math_sqrt (2 * l / real (visits nd)) of
                  Inl e \<Rightarrow> Inl e
                | Inr r \<Rightarrow> Inr (Fin (win_rate + explore_faction * r))))"

text \<open>
  \<^verbatim>\<open>ucb\<close> of \<^verbatim>\<open>mcts_modified.py\<close>. The test \<^verbatim>\<open>identity != parent.parent_action\<close> compares
  a player with an action or with \<^verbatim>\<open>None\<close>; players and actions are therefore values of
  one type here, and \<^verbatim>\<open>None\<close> is the \<open>None\<close> of the option type.
\<close>

definition ucb_m :: "'a node \<Rightarrow> 'a node \<Rightarrow> 'a \<Rightarrow> error + pyfloat" where
  "ucb_m nd par identity =
     (if visits nd = 0 then Inr PInf
      else
        let win_rate = wins nd / real (visits nd);
            win_rate = (if Some identity \<noteq> parent_action par
                        then 1 - win_rate else win_rate)
        in case math_log (real (visits par)) of
             Inl e \<Rightarrow> Inl e
           | Inr l \<Rightarrow>
               (case math_sqrt (l / real (visits nd)) of
                  Inl e \<Rightarrow> Inl e
                | Inr r \<Rightarrow> Inr (Fin (win_rate + explore_factor * r))))"

section \<open>Selection\<close>

text \<open>
  The loop of \<^verbatim>\<open>traverse_nodes\<close> in \<^verbatim>\<open>mcts_vanilla.py\<close> over
  \<^verbatim>\<open>node.child_nodes.items()\<close>, started with \<^verbatim>\<open>best_child = None\<close> and
  \<^verbatim>\<open>best_ucb = float('-inf')\<close>.
\<close>

fun best_child_loop_v ::
  "'a heap \<Rightarrow> nat \<Rightarrow> int \<Rightarrow> ('a \<times> nat) list \<Rightarrow> nat option \<Rightarrow> pyfloat \<Rightarrow> error + nat option" where
  "best_child_loop_v h n identity [] best_child best_ucb = Inr best_child"
| "best_child_loop_v h n identity ((action, child) # items) best_child best_ucb =
     (case ucb_v (cells h child) (cells h n) identity of
        Inl e \<Rightarrow> Inl e
      | Inr child_ucb \<Rightarrow>
          if best_ucb < child_ucb
          then best_child_loop_v h n identity items (Some child) child_ucb
          else best_child_loop_v h n identity items best_child best_ucb)"

text \<open>
  \<^verbatim>\<open>traverse_nodes\<close> of \<^verbatim>\<open>mcts_vanilla.py\<close>. Reading \<^verbatim>\<open>best_child.parent_action\<close> when
  no child was found raises \<^verbatim>\<open>AttributeError\<close>. The board's operations are total
  functions of the model; handing the board \<^verbatim>\<open>None\<close> as an action is the one call they
  cannot express, and it is the error \<^verbatim>\<open>TypeError\<close>. A run that never returns has the
  value \<open>None\<close>.
\<close>

partial_function (option) traverse_nodes_v ::
  "('s, 'a, 'p) board \<Rightarrow> 'a heap \<Rightarrow> nat \<Rightarrow> 's \<Rightarrow> int \<Rightarrow> (error + nat \<times> 's) option" where
  "traverse_nodes_v b h n state identity =
     (if is_ended b state \<or> length (untried_actions (cells h n)) > 0
      then Some (Inr (n, state))
      else
        case best_child_loop_v h n identity (child_nodes (cells h n)) None NInf of
          Inl e \<Rightarrow> Some (Inl e)
        | Inr None \<Rightarrow> Some (Inl AttributeError)
        | Inr (Some best_child) \<Rightarrow>
            (case parent_action (cells h best_child) of
               None \<Rightarrow> Some (Inl TypeError)
             | Some a \<Rightarrow> traverse_nodes_v b h best_child (next_state b state a) identity))"

text \<open>
  Python's \<^verbatim>\<open>max(iterable, key=f)\<close>: the first item whose key is largest; \<^verbatim>\<open>ValueError\<close>
  on an empty iterable. The key function may raise.
\<close>

fun max_loop :: "('x \<Rightarrow> error + 'k::linorder) \<Rightarrow> 'x list \<Rightarrow> 'x \<Rightarrow> 'k \<Rightarrow> error + 'x" where
  "max_loop key [] maxitem maxval = Inr maxitem"
| "max_loop key (item # items) maxitem maxval =
     (case key item of
        Inl e \<Rightarrow> Inl e
      | Inr val \<Rightarrow>
          if maxval < val then max_loop key items item val
          else max_loop key items maxitem maxval)"

definition py_max :: "('x \<Rightarrow> error + 'k::linorder) \<Rightarrow> 'x list \<Rightarrow> error + 'x" where
  "py_max key xs =
     (case xs of
        [] \<Rightarrow> Inl ValueError
      | item # items \<Rightarrow>
          (case key item of Inl e \<Rightarrow> Inl e | Inr val \<Rightarrow> max_loop key items item val))"

text \<open>\<^verbatim>\<open>traverse_nodes\<close> of \<^verbatim>\<open>mcts_modified.py\<close>.\<close>

partial_function (option) traverse_nodes_m ::
  "('s, 'a, 'p) board \<Rightarrow> 'a heap \<Rightarrow> nat \<Rightarrow> 's \<Rightarrow> 'a \<Rightarrow> (error + nat \<times> 's) option" where
  "traverse_nodes_m b h n state identity =
     (if \<not> is_ended b state \<and> untried_actions (cells h n) = []
      then
        case py_max (\<lambda>child. ucb_m (cells h child) (cells h n) identity)
               (map snd (child_nodes (cells h n))) of
          Inl e \<Rightarrow> Some (Inl e)
        | Inr best_child \<Rightarrow>
            (case parent_action (cells h best_child) of
               None \<Rightarrow> Some (Inl TypeError)
             | Some a \<Rightarrow> traverse_nodes_m b h best_child (next_state b state a) identity)
      else Some (Inr (n, state)))"

section \<open>Expansion\<close>

text \<open>A new object gets the next free address of the store.\<close>

definition alloc :: "'a heap \<Rightarrow> 'a node \<Rightarrow> 'a heap \<times> nat" where
  "alloc h nd =
     (h\<lparr>cells := (cells h)(next_free h := nd), next_free := Suc (next_free h)\<rparr>, next_free h)"

definition put :: "'a heap \<Rightarrow> nat \<Rightarrow> 'a node \<Rightarrow> 'a heap" where
  "put h n nd = h\<lparr>cells := (cells h)(n := nd)\<rparr>"

text \<open>
  \<^verbatim>\<open>expand_leaf\<close>, the same in both modules. \<^verbatim>\<open>list.remove\<close> deletes the first
  occurrence; the dictionary assignment replaces the value of an existing key in place
  and appends a new key. The result carries the store and the rest of the random source
  besides the returned pair.
\<close>

definition expand_leaf ::
  "('s, 'a, 'p) board \<Rightarrow> 'a heap \<Rightarrow> nat stream \<Rightarrow> nat \<Rightarrow> 's
     \<Rightarrow> error + ('a heap \<times> nat \<times> 's \<times> nat stream)" where
  "expand_leaf b h rs n state =
     (if is_ended b state \<or> untried_actions (cells h n) = [] then Inr (h, n, state, rs)
      else
        case choice rs (untried_actions (cells h n)) of
          Inl e \<Rightarrow> Inl e
        | Inr (action, rs') \<Rightarrow>
            let h1 = put h n ((cells h n)
                       \<lparr>untried_actions := remove1 action (untried_actions (cells h n))\<rparr>);
                next_st = next_state b state action;
                (h2, child_node) =
                   alloc h1 (MCTSNode (Some n) (Some action) (legal_actions b next_st));
                h3 = put h2 n ((cells h2 n)
                       \<lparr>child_nodes := AList.update action child_node (child_nodes (cells h2 n))\<rparr>)
            in Inr (h3, child_node, next_st, rs'))"

section \<open>Rollout\<close>

text \<open>
  The inner loop of \<^verbatim>\<open>rollout\<close> in \<^verbatim>\<open>mcts_vanilla.py\<close>: \<open>Some\<close> of the state the
  function returns early, or \<open>None\<close> when the loop runs to its end. Subscripting
  \<^verbatim>\<open>None\<close> is a \<^verbatim>\<open>TypeError\<close>, a missing key a \<^verbatim>\<open>KeyError\<close>.
\<close>

fun winning_scan_v :: "('s, 'a, 'p) board \<Rightarrow> 's \<Rightarrow> 'a list \<Rightarrow> error + 's option" where
  "winning_scan_v b rollout_state [] = Inr None"
| "winning_scan_v b rollout_state (move # moves) =
     (let next_st = next_state b rollout_state move
      in if is_ended b next_st
         then
           case points_values b next_st of
             None \<Rightarrow> Inl TypeError
           | Some points \<Rightarrow>
               (case points (current_player b rollout_state) of
                  None \<Rightarrow> Inl KeyError
                | Some v \<Rightarrow>
                    if v = 1 then Inr (Some next_st)
                    else winning_scan_v b rollout_state moves)
         else winning_scan_v b rollout_state moves)"

partial_function (option) rollout_v ::
  "('s, 'a, 'p) board \<Rightarrow> nat stream \<Rightarrow> 's \<Rightarrow> (error + 's \<times> nat stream) option" where
  "rollout_v b rs rollout_state =
     (if is_ended b rollout_state then Some (Inr (rollout_state, rs))
      else
        case winning_scan_v b rollout_state (legal_actions b rollout_state) of
          Inl e \<Rightarrow> Some (Inl e)
        | Inr (Some next_st) \<Rightarrow> Some (Inr (next_st, rs))
        | Inr None \<Rightarrow>
            (case choice rs (legal_actions b rollout_state) of
               Inl e \<Rightarrow> Some (Inl e)
             | Inr (action, rs') \<Rightarrow> rollout_v b rs' (next_state b rollout_state action)))"

text \<open>
  \<^verbatim>\<open>rollout\<close> of \<^verbatim>\<open>mcts_modified.py\<close>. \<^verbatim>\<open>winning_move if winning_move else ...\<close> tests
  the truth value of the move found; \<open>truthy\<close> gives the truth value of an action.
\<close>

partial_function (option) rollout_m ::
  "('s, 'a, 'p) board \<Rightarrow> ('a \<Rightarrow> bool) \<Rightarrow> nat stream \<Rightarrow> 's \<Rightarrow> (error + 's \<times> nat stream) option" where
  "rollout_m b truthy rs state =
     (if is_ended b state then Some (Inr (state, rs))
      else
        let legal_moves = legal_actions b state;
            winning_move = find (\<lambda>move. is_ended b (next_state b state move)) legal_moves
        in case (case winning_move of
                   Some m \<Rightarrow> if truthy m then Inr (m, rs) else choice rs legal_moves
                 | None \<Rightarrow> choice rs legal_moves) of
             Inl e \<Rightarrow> Some (Inl e)
           | Inr (action, rs') \<Rightarrow> rollout_m b truthy rs' (next_state b state action))"

section \<open>Backpropagation\<close>

text \<open>\<^verbatim>\<open>backpropagate\<close>, the same in both modules; the result is the updated store.\<close>

partial_function (option) backpropagate :: "'a heap \<Rightarrow> nat option \<Rightarrow> real \<Rightarrow> 'a heap option" where
  "backpropagate h node won =
     (case node of
        None \<Rightarrow> Some h
      | Some n \<Rightarrow>
          backpropagate
            (put h n ((cells h n)\<lparr>visits := visits (cells h n) + 1,
                                 wins := wins (cells h n) + won\<rparr>))
            (parent (cells h n)) won)"

section \<open>The final choice of an action\<close>

text \<open>
  The loop of \<^verbatim>\<open>get_best_action\<close> in \<^verbatim>\<open>mcts_vanilla.py\<close>. The square root is taken of
  a visit count, which is never negative.
\<close>

fun best_action_loop_v ::
  "'a heap \<Rightarrow> ('a \<times> nat) list \<Rightarrow> 'a option \<Rightarrow> pyfloat \<Rightarrow> 'a option" where
  "best_action_loop_v h [] best_action best_score = best_action"
| "best_action_loop_v h ((action, child) # items) best_action best_score =
     (if visits (cells h child) = 0 then best_action_loop_v h items best_action best_score
      else
        let score = Fin (wins (cells h child) / real (visits (cells h child))
                         + (1 / 10) * sqrt (real (visits (cells h child))))
        in if best_score < score then best_action_loop_v h items (Some action) score
           else best_action_loop_v h items best_action best_score)"

definition visits_key :: "'a heap \<Rightarrow> 'a \<times> nat \<Rightarrow> error + nat" where
  "visits_key h item = Inr (visits (cells h (snd item)))"

definition get_best_action_v :: "'a heap \<Rightarrow> nat \<Rightarrow> error + 'a" where
  "get_best_action_v h n =
     (case best_action_loop_v h (child_nodes (cells h n)) None NInf of
        Some best_action \<Rightarrow> Inr best_action
      | None \<Rightarrow>
          (case py_max (visits_key h) (child_nodes (cells h n)) of
             Inl e \<Rightarrow> Inl e
           | Inr item \<Rightarrow> Inr (fst item)))"

definition get_best_action_m :: "'a heap \<Rightarrow> nat \<Rightarrow> error + 'a" where
  "get_best_action_m h n =
     (case py_max (visits_key h) (child_nodes (cells h n)) of
        Inl e \<Rightarrow> Inl e
      | Inr item \<Rightarrow> Inr (fst item))"

section \<open>The search driver\<close>

text \<open>
  One pass of the loop body of \<^verbatim>\<open>think\<close> in \<^verbatim>\<open>mcts_vanilla.py\<close>, from a store and a
  random source to the store and the random source after it.
\<close>

definition think_iter_v ::
  "('s, 'a, int) board \<Rightarrow> int \<Rightarrow> nat \<Rightarrow> 's \<Rightarrow> 'a heap \<Rightarrow> nat stream
     \<Rightarrow> (error + 'a heap \<times> nat stream) option" where
  "think_iter_v b identity_of_bot root_node state h rs =
     (case traverse_nodes_v b h root_node state identity_of_bot of
        None \<Rightarrow> None
      | Some (Inl e) \<Rightarrow> Some (Inl e)
      | Some (Inr (node, current_state)) \<Rightarrow>
          (case (if \<not> is_ended b current_state
                 then expand_leaf b h rs node current_state
                 else Inr (h, node, current_state, rs)) of
             Inl e \<Rightarrow> Some (Inl e)
           | Inr (h1, node1, current_state1, rs1) \<Rightarrow>
               (case rollout_v b rs1 current_state1 of
                  None \<Rightarrow> None
                | Some (Inl e) \<Rightarrow> Some (Inl e)
                | Some (Inr (final_state, rs2)) \<Rightarrow>
                    (case points_values b final_state of
                       None \<Rightarrow> Some (Inl TypeError)
                     | Some points \<Rightarrow>
                         (case points identity_of_bot of
                            None \<Rightarrow> Some (Inl KeyError)
                          | Some v \<Rightarrow>
                              (case backpropagate h1 (Some node1)
                                      (if v = 1 then 1 else if v = - 1 then 0 else 1 / 2) of
                                 None \<Rightarrow> None
                               | Some h2 \<Rightarrow> Some (Inr (h2, rs2))))))))"

text \<open>
  The loop body of \<^verbatim>\<open>think\<close> in \<^verbatim>\<open>mcts_modified.py\<close>. \<^verbatim>\<open>points.get\<close> on \<^verbatim>\<open>None\<close> is an
  \<^verbatim>\<open>AttributeError\<close>.
\<close>

definition think_iter_m ::
  "('s, 'a, 'a) board \<Rightarrow> ('a \<Rightarrow> bool) \<Rightarrow> 'a \<Rightarrow> nat \<Rightarrow> 's \<Rightarrow> 'a heap \<Rightarrow> nat stream
     \<Rightarrow> (error + 'a heap \<times> nat stream) option" where
  "think_iter_m b truthy identity_of_bot root_node state h rs =
     (case traverse_nodes_m b h root_node state identity_of_bot of
        None \<Rightarrow> None
      | Some (Inl e) \<Rightarrow> Some (Inl e)
      | Some (Inr (node, current_state)) \<Rightarrow>
          (case (if \<not> is_ended b current_state
                 then expand_leaf b h rs node current_state
                 else Inr (h, node, current_state, rs)) of
             Inl e \<Rightarrow> Some (Inl e)
           | Inr (h1, node1, current_state1, rs1) \<Rightarrow>
               (case rollout_m b truthy rs1 current_state1 of
                  None \<Rightarrow> None
                | Some (Inl e) \<Rightarrow> Some (Inl e)
                | Some (Inr (final_state, rs2)) \<Rightarrow>
                    (case points_values b final_state of
                       None \<Rightarrow> Some (Inl AttributeError)
                     | Some points \<Rightarrow>
                         (case backpropagate h1 (Some node1)
                                 (case points identity_of_bot of None \<Rightarrow> 0 | Some v \<Rightarrow> v) of
                            None \<Rightarrow> None
                          | Some h2 \<Rightarrow> Some (Inr (h2, rs2)))))))"

text \<open>\<^verbatim>\<open>for _ in range(num_nodes)\<close>: the body runs \<open>k\<close> times, stopping at the first error.\<close>

fun repeat_iter ::
  "('h \<Rightarrow> nat stream \<Rightarrow> (error + 'h \<times> nat stream) option) \<Rightarrow> nat \<Rightarrow> 'h \<Rightarrow> nat stream
     \<Rightarrow> (error + 'h \<times> nat stream) option" where
  "repeat_iter body 0 h rs = Some (Inr (h, rs))"
| "repeat_iter body (Suc k) h rs =
     (case body h rs of
        None \<Rightarrow> None
      | Some (Inl e) \<Rightarrow> Some (Inl e)
      | Some (Inr (h', rs')) \<Rightarrow> repeat_iter body k h' rs')"

definition empty_heap :: "'a heap" where
  "empty_heap = \<lparr>cells = (\<lambda>_. MCTSNode None None []), next_free = 0\<rparr>"

text \<open>
  \<^verbatim>\<open>think\<close>. \<^verbatim>\<open>num_nodes\<close> is the integer read at import time; a range over a negative
  number is empty. The search tree is built in a fresh store, the root at address \<open>0\<close>.
\<close>

definition think_v ::
  "('s, 'a, int) board \<Rightarrow> int \<Rightarrow> nat stream \<Rightarrow> 's \<Rightarrow> (error + 'a) option" where
  "think_v b num_nodes rs state =
     (let identity_of_bot = current_player b state;
          (h0, root_node) = alloc empty_heap (MCTSNode None None (legal_actions b state))
      in case repeat_iter (think_iter_v b identity_of_bot root_node state)
                (nat num_nodes) h0 rs of
           None \<Rightarrow> None
         | Some (Inl e) \<Rightarrow> Some (Inl e)
         | Some (Inr (h, rs')) \<Rightarrow> Some (get_best_action_v h root_node))"

definition think_m ::
  "('s, 'a, 'a) board \<Rightarrow> ('a \<Rightarrow> bool) \<Rightarrow> int \<Rightarrow> nat stream \<Rightarrow> 's \<Rightarrow> (error + 'a) option" where
  "think_m b truthy num_nodes rs state =
     (let identity_of_bot = current_player b state;
          (h0, root_node) = alloc empty_heap (MCTSNode None None (legal_actions b state))
      in case repeat_iter (think_iter_m b truthy identity_of_bot root_node state)
                (nat num_nodes) h0 rs of
           None \<Rightarrow> None
         | Some (Inl e) \<Rightarrow> Some (Inl e)
         | Some (Inr (h, rs')) \<Rightarrow> Some (get_best_action_m h root_node))"

section \<open>Vocabulary of the properties and example data\<close>

text \<open>
  Two nodes for the examples: a child with two visits and one win, under a parent with
  two visits.
\<close>

definition demo_child :: "nat node" where
  "demo_child = (MCTSNode (Some 0) (Some 7) [])\<lparr>wins := 1, visits := 2\<rparr>"


text \<open>
  The chain of parent links that starts at a node: the node, its parent, and so on up to a
  node whose parent is \<^verbatim>\<open>None\<close>. A chain exists exactly when the links from the node
  reach such a node after finitely many steps.
\<close>

inductive parent_chain :: "'a heap \<Rightarrow> nat option \<Rightarrow> nat list \<Rightarrow> bool" where
  chain_end: "parent_chain h None []"
| chain_step: "parent_chain h (parent (cells h n)) ns \<Longrightarrow> parent_chain h (Some n) (n # ns)"

text \<open>What one step of \<^verbatim>\<open>backpropagate\<close> does to a node.\<close>

definition credit :: "real \<Rightarrow> 'a node \<Rightarrow> 'a node" where
  "credit won nd = nd\<lparr>visits := visits nd + 1, wins := wins nd + won\<rparr>"

text \<open>
  A store for the examples: a root at address 0 with three children at the addresses 1, 2
  and 3, entered under the actions 1, 2 and 3.
\<close>

definition demo_heap :: "nat heap" where
  "demo_heap =
     \<lparr>cells = (\<lambda>_. MCTSNode None None [])
        (0 := (MCTSNode None None [])
                \<lparr>child_nodes := [(1, 1), (2, 2), (3, 3)], wins := 3 / 2, visits := 3\<rparr>,
         1 := (MCTSNode (Some 0) (Some 1) [])\<lparr>wins := 1 / 2, visits := 1\<rparr>,
         2 := (MCTSNode (Some 0) (Some 2) [])\<lparr>wins := 1, visits := 1\<rparr>,
         3 := (MCTSNode (Some 0) (Some 3) [])\<lparr>wins := 0, visits := 1\<rparr>),
      next_free = 4\<rparr>"

text \<open>
  A board for the examples, for a player \<open>p\<close>: from state 0 the moves 1, 2 and 3 lead to
  the ended states 1, 2 and 3; state 1 is a draw, state 2 a win and state 3 a loss for
  \<open>p\<close>.
\<close>

definition demo_board :: "'p \<Rightarrow> (nat, nat, 'p) board" where
  "demo_board p =
     \<lparr>is_ended = (\<lambda>s. s \<noteq> 0),
      legal_actions = (\<lambda>s. if s = 0 then [1, 2, 3] else []),
      next_state = (\<lambda>s a. a),
      current_player = (\<lambda>s. p),
      points_values = (\<lambda>s. if s = 0 then None
                            else Some [p \<mapsto> (if s = 1 then 0 else if s = 2 then 1 else - 1)])\<rparr>"

text \<open>Python's truth value of a number used as an action.\<close>

definition truthy_nat :: "nat \<Rightarrow> bool" where
  "truthy_nat a = (a \<noteq> 0)"

text \<open>The store in which \<^verbatim>\<open>think\<close> starts on the example board at state 0.\<close>

definition demo_root_heap :: "nat heap" where
  "demo_root_heap = fst (alloc empty_heap (MCTSNode None None [1, 2, 3]))"

text \<open>
  A move wins at a state when its successor is ended and scores 1 for the player to move
  at the state.
\<close>

definition wins_at_once :: "('s, 'a, 'p) board \<Rightarrow> 's \<Rightarrow> 'a \<Rightarrow> bool" where
  "wins_at_once b s move =
     (is_ended b (next_state b s move)
      \<and> (case points_values b (next_state b s move) of
           None \<Rightarrow> False
         | Some points \<Rightarrow> points (current_player b s) = Some 1))"

text \<open>The board scores every ended successor of a state for the player to move.\<close>

definition scored :: "('s, 'a, 'p) board \<Rightarrow> 's \<Rightarrow> bool" where
  "scored b s =
     (\<forall>move \<in> set (legal_actions b s).
        is_ended b (next_state b s move) \<longrightarrow>
          (\<exists>points v. points_values b (next_state b s move) = Some points
                     \<and> points (current_player b s) = Some v))"

text \<open>The root of a search on a state without legal actions, before and after any pass.\<close>

definition barren_root :: "'a heap \<Rightarrow> nat \<Rightarrow> bool" where
  "barren_root h r =
     (parent (cells h r) = None \<and> child_nodes (cells h r) = []
      \<and> untried_actions (cells h r) = [])"

text \<open>The wins recorded at a node after a pass of the loop body that completed.\<close>

definition credited :: "nat \<Rightarrow> (error + 'a heap \<times> nat stream) option \<Rightarrow> real option" where
  "credited n r = (case r of Some (Inr (h, rs)) \<Rightarrow> Some (wins (cells h n)) | _ \<Rightarrow> None)"

text \<open>
  A store for the examples in which the second child of the root has not been visited
  and the first has a win rate of 1.
\<close>

definition demo_fresh_heap :: "nat heap" where
  "demo_fresh_heap =
     \<lparr>cells = (\<lambda>_. MCTSNode None None [])
        (0 := (MCTSNode None None [])\<lparr>child_nodes := [(1, 1), (2, 2)], wins := 1, visits := 1\<rparr>,
         1 := (MCTSNode (Some 0) (Some 1) [])\<lparr>wins := 1, visits := 1\<rparr>,
         2 := MCTSNode (Some 0) (Some 2) []),
      next_free = 3\<rparr>"

text \<open>
  Well-formedness of the tree in a store, relative to the game state \<open>g n\<close> that belongs
  to each node \<open>n\<close> (the state from which the node's untried actions were computed).
  \<open>links_ok\<close>: a child is a later object than its parent, points back to it, carries the
  action under which it is entered, and belongs to the successor state under that
  action. \<open>live_ok\<close>: a node at a state that has not ended has an untried action or a
  child, and the parent of a visited child is visited.
\<close>

definition links_ok :: "('s, 'a, 'p) board \<Rightarrow> 'a heap \<Rightarrow> (nat \<Rightarrow> 's) \<Rightarrow> bool" where
  "links_ok b h g =
     (\<forall>n < next_free h. \<forall>(a, c) \<in> set (child_nodes (cells h n)).
        n < c \<and> c < next_free h \<and> parent (cells h c) = Some n
        \<and> parent_action (cells h c) = Some a \<and> g c = next_state b (g n) a)"

definition live_ok :: "('s, 'a, 'p) board \<Rightarrow> 'a heap \<Rightarrow> (nat \<Rightarrow> 's) \<Rightarrow> bool" where
  "live_ok b h g =
     (\<forall>n < next_free h.
        (\<not> is_ended b (g n) \<and> untried_actions (cells h n) = []
           \<longrightarrow> child_nodes (cells h n) \<noteq> [])
        \<and> (\<forall>(a, c) \<in> set (child_nodes (cells h n)).
              0 < visits (cells h c) \<longrightarrow> 0 < visits (cells h n)))"

definition tree_ok :: "('s, 'a, 'p) board \<Rightarrow> 'a heap \<Rightarrow> (nat \<Rightarrow> 's) \<Rightarrow> bool" where
  "tree_ok b h g = (links_ok b h g \<and> live_ok b h g)"

text \<open>
  Selection as the specification words it: starting at a node and its state, repeatedly,
  while the game has not ended at the state and the node has no untried action, pick a
  child whose score is greatest among all children, advance the state by that child's
  parent action, and move to the child.
\<close>

inductive ucb_descent ::
  "(nat \<Rightarrow> nat \<Rightarrow> error + pyfloat) \<Rightarrow> ('s, 'a, 'p) board \<Rightarrow> 'a heap
     \<Rightarrow> nat \<times> 's \<Rightarrow> nat \<times> 's \<Rightarrow> bool"
  for score :: "nat \<Rightarrow> nat \<Rightarrow> error + pyfloat" and b :: "('s, 'a, 'p) board" and h :: "'a heap"
  where
    descent_stop: "ucb_descent score b h (n, s) (n, s)"
  | descent_move:
      "\<not> is_ended b s \<Longrightarrow> untried_actions (cells h n) = [] \<Longrightarrow>
       (a, c) \<in> set (child_nodes (cells h n)) \<Longrightarrow>
       score c n = Inr u \<Longrightarrow>
       \<forall>(a', c') \<in> set (child_nodes (cells h n)). \<exists>u'. score c' n = Inr u' \<and> u' \<le> u \<Longrightarrow>
       parent_action (cells h c) = Some pa \<Longrightarrow>
       ucb_descent score b h (c, next_state b s pa) (n', s') \<Longrightarrow>
       ucb_descent score b h (n, s) (n', s')"

text \<open>
  What the board guarantees: a state that has not ended has a legal action
  (\<open>board_ok\<close>); the legal actions of a state are listed without repetition
  (\<open>distinct_board\<close>).
\<close>

definition board_ok :: "('s, 'a, 'p) board \<Rightarrow> bool" where
  "board_ok b = (\<forall>s. \<not> is_ended b s \<longrightarrow> legal_actions b s \<noteq> [])"

definition distinct_board :: "('s, 'a, 'p) board \<Rightarrow> bool" where
  "distinct_board b = (\<forall>s. distinct (legal_actions b s))"

text \<open>
  \<open>actions_ok\<close>: at every node the keys of the children and the untried actions are
  free of repetition, disjoint, and together the legal actions of the node's state.
\<close>

definition actions_ok :: "('s, 'a, 'p) board \<Rightarrow> 'a heap \<Rightarrow> (nat \<Rightarrow> 's) \<Rightarrow> bool" where
  "actions_ok b h g =
     (\<forall>n < next_free h.
        distinct (map fst (child_nodes (cells h n)) @ untried_actions (cells h n))
        \<and> set (map fst (child_nodes (cells h n))) \<union> set (untried_actions (cells h n))
            = set (legal_actions b (g n)))"

text \<open>
  \<open>framed\<close>: the store \<open>h'\<close> differs from \<open>h\<close> only in wins and visits; no visit count
  is lower in \<open>h'\<close>; a node whose count is higher in \<open>h'\<close> has a parent that is visited
  in \<open>h'\<close>; and the node \<open>x\<close> is visited in \<open>h'\<close>.
\<close>

definition framed :: "'a heap \<Rightarrow> nat option \<Rightarrow> 'a heap \<Rightarrow> bool" where
  "framed h x h' =
     (next_free h' = next_free h
      \<and> (\<forall>m. parent (cells h' m) = parent (cells h m)
             \<and> parent_action (cells h' m) = parent_action (cells h m)
             \<and> child_nodes (cells h' m) = child_nodes (cells h m)
             \<and> untried_actions (cells h' m) = untried_actions (cells h m)
             \<and> visits (cells h m) \<le> visits (cells h' m)
             \<and> (visits (cells h m) < visits (cells h' m) \<longrightarrow>
                  (\<forall>p. parent (cells h m) = Some p \<longrightarrow> 0 < visits (cells h' p))))
      \<and> (\<forall>n. x = Some n \<longrightarrow> 0 < visits (cells h' n)))"

text \<open>
  \<open>rooted\<close>: every object of the store other than the root at address 0 is entered as a
  child at an earlier object.
\<close>

definition rooted :: "'a heap \<Rightarrow> bool" where
  "rooted h =
     (\<forall>c < next_free h. c \<noteq> 0 \<longrightarrow>
        (\<exists>n a. n < c \<and> (a, c) \<in> set (child_nodes (cells h n))))"

text \<open>
  The invariant of the search loop for a search started at state \<open>s\<close>: some assignment
  \<open>g\<close> of states to nodes gives the root the state \<open>s\<close> and makes the links well formed;
  on a board that is \<open>board_ok\<close> the tree is alive; on a board that lists legal actions
  without repetition the action sets are in order and every node hangs in the tree.
\<close>

definition search_inv :: "('s, 'a, 'p) board \<Rightarrow> 's \<Rightarrow> 'a heap \<Rightarrow> (nat \<Rightarrow> 's) \<Rightarrow> bool" where
  "search_inv b s h g =
     (g 0 = s \<and> 0 < next_free h \<and> links_ok b h g
      \<and> (board_ok b \<longrightarrow> live_ok b h g)
      \<and> (distinct_board b \<longrightarrow> actions_ok b h g \<and> rooted h))"

text \<open>
  \<open>creation_states\<close>: \<open>g\<close> gives every node the state for which it was created: the root
  the state the search started from, a child the successor of its parent's state under
  the action it is entered under; and every node but the root is such a child.
  \<open>action_counts\<close>: at every node the number of children plus the number of untried
  actions is the number of legal actions at the node's state, the keys of the children
  are legal actions at that state, and no key is an untried action.
\<close>

definition creation_states ::
  "('s, 'a, 'p) board \<Rightarrow> 'a heap \<Rightarrow> 's \<Rightarrow> (nat \<Rightarrow> 's) \<Rightarrow> bool" where
  "creation_states b h s g =
     (g 0 = s
      \<and> (\<forall>n < next_free h. \<forall>(a, c) \<in> set (child_nodes (cells h n)).
             c < next_free h \<and> g c = next_state b (g n) a)
      \<and> (\<forall>c < next_free h. c \<noteq> 0 \<longrightarrow>
             (\<exists>n a. n < c \<and> (a, c) \<in> set (child_nodes (cells h n)))))"

definition action_counts :: "('s, 'a, 'p) board \<Rightarrow> 'a heap \<Rightarrow> (nat \<Rightarrow> 's) \<Rightarrow> bool" where
  "action_counts b h g =
     (\<forall>n < next_free h.
        length (child_nodes (cells h n)) + length (untried_actions (cells h n))
          = length (legal_actions b (g n))
        \<and> set (map fst (child_nodes (cells h n))) \<inter> set (untried_actions (cells h n)) = {}
        \<and> set (map fst (child_nodes (cells h n))) \<subseteq> set (legal_actions b (g n)))"

section \<open>Properties of UCB\<close>

lemma math_log_pos: "0 < n \<Longrightarrow> math_log (real n) = Inr (ln (real n))"
  by (simp add: math_log_def)

lemma math_sqrt_nonneg: "0 \<le> x \<Longrightarrow> math_sqrt x = Inr (sqrt x)"
  by (simp add: math_sqrt_def)

lemma ln_real_nat_nonneg: "0 < n \<Longrightarrow> 0 \<le> ln (real n)"
  by (simp add: ln_ge_zero)

lemma ucb_v_visited:
  assumes "0 < visits nd" and "0 < visits par"
  shows "ucb_v nd par identity =
           Inr (Fin ((if int (visits par) mod 2 \<noteq> identity - 1
                      then 1 - wins nd / real (visits nd) else wins nd / real (visits nd))
                     + explore_faction * sqrt (2 * ln (real (visits par)) / real (visits nd))))"
proof -
  have "0 \<le> 2 * ln (real (visits par)) / real (visits nd)"
    using assms by (simp add: ln_real_nat_nonneg)
  then show ?thesis
    using assms by (simp add: ucb_v_def Let_def math_log_pos math_sqrt_nonneg)
qed

lemma ucb_m_visited:
  assumes "0 < visits nd" and "0 < visits par"
  shows "ucb_m nd par identity =
           Inr (Fin ((if Some identity \<noteq> parent_action par
                      then 1 - wins nd / real (visits nd) else wins nd / real (visits nd))
                     + explore_factor * sqrt (ln (real (visits par)) / real (visits nd))))"
proof -
  have "0 \<le> ln (real (visits par)) / real (visits nd)"
    using assms by (simp add: ln_real_nat_nonneg)
  then show ?thesis
    using assms by (simp add: ucb_m_def Let_def math_log_pos math_sqrt_nonneg)
qed

lemma ucb_v_unvisited: "visits nd = 0 \<Longrightarrow> ucb_v nd par identity = Inr PInf"
  by (simp add: ucb_v_def)

lemma ucb_m_unvisited: "visits nd = 0 \<Longrightarrow> ucb_m nd par identity = Inr PInf"
  by (simp add: ucb_m_def)




text \<open>
  C10. In \<^verbatim>\<open>mcts_modified.py\<close> the root is built by \<^verbatim>\<open>MCTSNode(parent=None,
  parent_action=None, ...)\<close> and the search only ever changes its children, untried
  actions, wins and visits. For every such root with \<open>visits > 0\<close>, every child \<open>c\<close> with
  \<open>c.visits > 0\<close> and every identity, \<^verbatim>\<open>ucb\<close> scores the child with the inverted rate
  \<open>1 - c.wins / c.visits\<close>.
\<close>

theorem ucb_m_root_inverted:
  assumes "0 < visits c" and "0 < v"
  shows "ucb_m c ((MCTSNode None None acts)
                    \<lparr>child_nodes := cs, untried_actions := us, wins := w, visits := v\<rparr>)
           identity =
         Inr (Fin (1 - wins c / real (visits c)
                   + explore_factor * sqrt (ln (real v) / real (visits c))))"
  using assms by (simp add: ucb_m_visited MCTSNode_def)

theorem ucb_m_root_inverted_witness:
  "0 < visits demo_child \<and> (0::nat) < 2
   \<and> ucb_m demo_child
       ((MCTSNode None None [])\<lparr>child_nodes := [(7, 1)], untried_actions := [],
                                 wins := 1, visits := 2\<rparr>) 1 =
     Inr (Fin (1 - wins demo_child / real (visits demo_child)
               + explore_factor * sqrt (ln (real (2::nat)) / real (visits demo_child))))"
  using ucb_m_root_inverted [where c = demo_child and v = 2 and acts = "[]"
      and cs = "[(7, 1)]" and us = "[]" and w = 1 and identity = 1]
  by (simp add: demo_child_def MCTSNode_def)

section \<open>Properties of backpropagation\<close>

lemma parent_chain_Nil: "parent_chain h x [] \<Longrightarrow> x = None"
  by (cases rule: parent_chain.cases) auto

lemma parent_chain_Cons:
  "parent_chain h x (m # ns) \<Longrightarrow> x = Some m \<and> parent_chain h (parent (cells h m)) ns"
  by (cases rule: parent_chain.cases) auto

lemma parent_chain_same_parents:
  assumes "parent_chain h x ns" and "\<And>m. parent (cells h1 m) = parent (cells h m)"
  shows "parent_chain h1 x ns"
  using assms
proof (induction rule: parent_chain.induct)
  case (chain_end h)
  show ?case by (rule parent_chain.chain_end)
next
  case (chain_step h n ns)
  have "parent_chain h1 (parent (cells h1 n)) ns"
    using chain_step.IH chain_step.prems by simp
  then show ?case by (rule parent_chain.chain_step)
qed

lemma parent_chain_unique:
  "parent_chain h x ns \<Longrightarrow> parent_chain h x ns' \<Longrightarrow> ns = ns'"
proof (induction arbitrary: ns' rule: parent_chain.induct)
  case (chain_end h)
  then show ?case by (cases rule: parent_chain.cases) auto
next
  case (chain_step h n ns)
  from chain_step.prems obtain ms where "ns' = n # ms"
    and "parent_chain h (parent (cells h n)) ms"
    by (cases rule: parent_chain.cases) auto
  with chain_step.IH show ?case by simp
qed

lemma parent_chain_suffix:
  "parent_chain h x ns \<Longrightarrow> m \<in> set ns \<Longrightarrow>
     \<exists>suf. length suf < length ns \<and> parent_chain h (Some m) (m # suf)"
proof (induction rule: parent_chain.induct)
  case (chain_end h)
  then show ?case by simp
next
  case (chain_step h n ns)
  show ?case
  proof (cases "m = n")
    case True
    then show ?thesis
      using chain_step.hyps parent_chain.chain_step [of h n ns] by auto
  next
    case False
    then have "m \<in> set ns" using chain_step.prems by simp
    then obtain suf where "length suf < length ns" "parent_chain h (Some m) (m # suf)"
      using chain_step.IH by blast
    then show ?thesis by (intro exI [of _ suf]) simp
  qed
qed

lemma parent_chain_distinct: "parent_chain h x ns \<Longrightarrow> distinct ns"
proof (induction rule: parent_chain.induct)
  case (chain_end h)
  show ?case by simp
next
  case (chain_step h n ns)
  have "n \<notin> set ns"
  proof
    assume "n \<in> set ns"
    then obtain suf where len: "length suf < length ns"
      and ch: "parent_chain h (Some n) (n # suf)"
      using parent_chain_suffix [OF chain_step.hyps] by blast
    have "parent_chain h (Some n) (n # ns)"
      using chain_step.hyps by (rule parent_chain.chain_step)
    then have "n # ns = n # suf" using ch by (rule parent_chain_unique)
    then show False using len by simp
  qed
  then show ?case using chain_step.IH by simp
qed

lemma parent_chain_last:
  "parent_chain h x ns \<Longrightarrow> ns \<noteq> [] \<Longrightarrow> parent (cells h (last ns)) = None"
proof (induction rule: parent_chain.induct)
  case (chain_end h)
  then show ?case by simp
next
  case (chain_step h n ns)
  show ?case
  proof (cases ns)
    case Nil
    then have "parent (cells h n) = None"
      using chain_step.hyps parent_chain_Nil by blast
    then show ?thesis using Nil by simp
  next
    case (Cons a list)
    then show ?thesis using chain_step.IH by simp
  qed
qed

lemma backpropagate_None: "backpropagate h None won = Some h"
  by (subst backpropagate.simps) simp

lemma backpropagate_Some:
  "backpropagate h (Some n) won =
     backpropagate (put h n (credit won (cells h n))) (parent (cells h n)) won"
  by (subst backpropagate.simps) (simp add: credit_def)

lemma backpropagate_fold:
  "parent_chain h x ns \<Longrightarrow>
     backpropagate h x won = Some (fold (\<lambda>m k. put k m (credit won (cells k m))) ns h)"
proof (induction ns arbitrary: h x)
  case Nil
  then have "x = None" by (rule parent_chain_Nil)
  then show ?case by (simp add: backpropagate_None)
next
  case (Cons m ns)
  from Cons.prems have x: "x = Some m"
    and ch: "parent_chain h (parent (cells h m)) ns"
    using parent_chain_Cons by blast+
  let ?h1 = "put h m (credit won (cells h m))"
  have same: "\<And>k. parent (cells ?h1 k) = parent (cells h k)"
    by (simp add: put_def credit_def)
  have "parent_chain ?h1 (parent (cells h m)) ns"
    using ch same by (rule parent_chain_same_parents)
  then have "backpropagate ?h1 (parent (cells h m)) won =
      Some (fold (\<lambda>m k. put k m (credit won (cells k m))) ns ?h1)"
    by (rule Cons.IH)
  then show ?case by (simp add: x backpropagate_Some)
qed

lemma fold_credit_cells:
  "distinct ns \<Longrightarrow>
     cells (fold (\<lambda>m k. put k m (credit won (cells k m))) ns h) j =
       (if j \<in> set ns then credit won (cells h j) else cells h j)"
proof (induction ns arbitrary: h)
  case Nil
  show ?case by simp
next
  case (Cons m ns)
  then show ?case by (auto simp: put_def)
qed

lemma fold_credit_next_free:
  "next_free (fold (\<lambda>m k. put k m (credit won (cells k m))) ns h) = next_free h"
  by (induction ns arbitrary: h) (simp_all add: put_def)

text \<open>
  C7. When the parent links from a node reach a node without parent after finitely many
  steps (\<open>ns\<close> lists the node and its ancestors in that order, the root last),
  \<^verbatim>\<open>backpropagate\<close> returns, and in the store it leaves exactly the nodes of \<open>ns\<close> have
  \<open>visits\<close> increased by 1 and \<open>wins\<close> increased by the outcome; every other node and every
  other field is as before.
\<close>

theorem backpropagate_credits_chain:
  assumes "parent_chain h (Some n) ns"
  shows "\<exists>h'. backpropagate h (Some n) won = Some h'
           \<and> next_free h' = next_free h
           \<and> (\<forall>j. cells h' j =
                (if j \<in> set ns
                 then (cells h j)\<lparr>visits := visits (cells h j) + 1,
                                  wins := wins (cells h j) + won\<rparr>
                 else cells h j))
           \<and> hd ns = n \<and> parent (cells h (last ns)) = None"
proof -
  have d: "distinct ns" using assms by (rule parent_chain_distinct)
  have ne: "ns \<noteq> []" and hd: "hd ns = n"
    using assms by (cases rule: parent_chain.cases, simp)+
  define h' where "h' = fold (\<lambda>m k. put k m (credit won (cells k m))) ns h"
  have ret: "backpropagate h (Some n) won = Some h'"
    unfolding h'_def using assms by (rule backpropagate_fold)
  have nf: "next_free h' = next_free h"
    unfolding h'_def by (rule fold_credit_next_free)
  have cs: "\<And>j. cells h' j = (if j \<in> set ns then credit won (cells h j) else cells h j)"
    unfolding h'_def using d by (rule fold_credit_cells)
  have "parent (cells h (last ns)) = None"
    using assms ne by (rule parent_chain_last)
  then show ?thesis
    using ret nf hd by (simp add: cs credit_def)
qed

theorem backpropagate_credits_chain_witness:
  "parent_chain demo_heap (Some 2) [2, 0]
   \<and> (\<exists>h'. backpropagate demo_heap (Some 2) 1 = Some h'
         \<and> visits (cells h' 2) = 2 \<and> wins (cells h' 2) = 2
         \<and> visits (cells h' 0) = 4 \<and> wins (cells h' 0) = 5 / 2
         \<and> cells h' 1 = cells demo_heap 1)"
proof -
  have p2: "parent (cells demo_heap 2) = Some 0" and p0: "parent (cells demo_heap 0) = None"
    by (simp_all add: demo_heap_def MCTSNode_def)
  have "parent_chain demo_heap (parent (cells demo_heap 0)) []"
    unfolding p0 by (rule parent_chain.chain_end)
  then have "parent_chain demo_heap (Some 0) [0]"
    by (rule parent_chain.chain_step)
  then have "parent_chain demo_heap (parent (cells demo_heap 2)) [0]"
    unfolding p2 .
  then have ch: "parent_chain demo_heap (Some 2) [2, 0]"
    by (rule parent_chain.chain_step)
  from backpropagate_credits_chain [OF ch, of 1]
  obtain h' where "backpropagate demo_heap (Some 2) 1 = Some h'"
    and c: "\<forall>j. cells h' j =
                (if j \<in> set [2, 0]
                 then (cells demo_heap j)\<lparr>visits := visits (cells demo_heap j) + 1,
                                  wins := wins (cells demo_heap j) + 1\<rparr>
                 else cells demo_heap j)"
    by blast
  moreover have "visits (cells h' 2) = 2 \<and> wins (cells h' 2) = 2
         \<and> visits (cells h' 0) = 4 \<and> wins (cells h' 0) = 5 / 2
         \<and> cells h' 1 = cells demo_heap 1"
    by (simp add: c) (simp add: demo_heap_def MCTSNode_def)
  ultimately show ?thesis using ch by blast
qed

section \<open>Properties of expansion\<close>

lemma choice_member:
  "seq \<noteq> [] \<Longrightarrow> \<exists>x. x \<in> set seq \<and> choice rs seq = Inr (x, stl rs)"
  by (simp add: choice_def)

text \<open>Every element of a sequence is the draw of \<^verbatim>\<open>choice\<close> for some random source.\<close>

lemma choice_any:
  assumes "x \<in> set seq"
  shows "\<exists>rs. choice rs seq = Inr (x, stl rs)"
proof -
  from assms obtain i where i: "i < length seq" "seq ! i = x"
    by (auto simp: in_set_conv_nth)
  then have "choice (sconst i) seq = Inr (x, stl (sconst i))"
    by (auto simp: choice_def)
  then show ?thesis by blast
qed

lemma expand_leaf_noop:
  "is_ended b state \<or> untried_actions (cells h n) = [] \<Longrightarrow>
     expand_leaf b h rs n state = Inr (h, n, state, rs)"
  by (auto simp: expand_leaf_def)

lemma expand_leaf_step:
  assumes "\<not> is_ended b state" and "untried_actions (cells h n) \<noteq> []"
    and "choice rs (untried_actions (cells h n)) = Inr (action, rs')"
    and "n < next_free h"
  shows "\<exists>h'. expand_leaf b h rs n state =
               Inr (h', next_free h, next_state b state action, rs')
           \<and> next_free h' = Suc (next_free h)
           \<and> cells h' (next_free h) =
               MCTSNode (Some n) (Some action) (legal_actions b (next_state b state action))
           \<and> cells h' n = (cells h n)
               \<lparr>child_nodes := AList.update action (next_free h) (child_nodes (cells h n)),
                untried_actions := remove1 action (untried_actions (cells h n))\<rparr>
           \<and> (\<forall>j. j \<noteq> n \<and> j \<noteq> next_free h \<longrightarrow> cells h' j = cells h j)"
  using assms
  by (simp add: expand_leaf_def alloc_def put_def Let_def)

text \<open>
  C6. If the game has ended at the state or the node has no untried actions,
  \<^verbatim>\<open>expand_leaf\<close> returns the node and the state and leaves the store as it is. Otherwise
  (for a node of the store) it draws an action from \<open>untried_actions\<close> with \<^verbatim>\<open>choice\<close>,
  removes it, creates a child at a fresh address with the input node as parent, the
  action as parent action and the legal actions of the successor state as untried
  actions, enters it in the node's children under the action, and returns the child with
  the successor state. Afterwards the action is a key of the children, and it is no
  longer among the untried actions when these were free of duplicates.
\<close>

theorem expand_leaf_contract:
  "(is_ended b state \<or> untried_actions (cells h n) = [] \<longrightarrow>
      expand_leaf b h rs n state = Inr (h, n, state, rs))
   \<and> (\<not> is_ended b state \<and> untried_actions (cells h n) \<noteq> [] \<and> n < next_free h \<longrightarrow>
        (\<exists>action h'.
           action \<in> set (untried_actions (cells h n))
           \<and> choice rs (untried_actions (cells h n)) = Inr (action, stl rs)
           \<and> expand_leaf b h rs n state =
               Inr (h', next_free h, next_state b state action, stl rs)
           \<and> cells h' (next_free h) =
               MCTSNode (Some n) (Some action) (legal_actions b (next_state b state action))
           \<and> untried_actions (cells h' n) = remove1 action (untried_actions (cells h n))
           \<and> child_nodes (cells h' n) =
               AList.update action (next_free h) (child_nodes (cells h n))
           \<and> parent (cells h' n) = parent (cells h n)
           \<and> parent_action (cells h' n) = parent_action (cells h n)
           \<and> visits (cells h' n) = visits (cells h n)
           \<and> wins (cells h' n) = wins (cells h n)
           \<and> (\<forall>j. j \<noteq> n \<and> j \<noteq> next_free h \<longrightarrow> cells h' j = cells h j)
           \<and> next_free h' = Suc (next_free h)
           \<and> map_of (child_nodes (cells h' n)) action = Some (next_free h)
           \<and> (distinct (untried_actions (cells h n)) \<longrightarrow>
                action \<notin> set (untried_actions (cells h' n)))))"
proof (intro conjI impI)
  assume "is_ended b state \<or> untried_actions (cells h n) = []"
  then show "expand_leaf b h rs n state = Inr (h, n, state, rs)"
    by (rule expand_leaf_noop)
next
  assume a: "\<not> is_ended b state \<and> untried_actions (cells h n) \<noteq> [] \<and> n < next_free h"
  then obtain action where mem: "action \<in> set (untried_actions (cells h n))"
    and ch: "choice rs (untried_actions (cells h n)) = Inr (action, stl rs)"
    using choice_member by blast
  from a ch obtain h' where
    ex: "expand_leaf b h rs n state = Inr (h', next_free h, next_state b state action, stl rs)"
    and nf: "next_free h' = Suc (next_free h)"
    and cc: "cells h' (next_free h) =
               MCTSNode (Some n) (Some action) (legal_actions b (next_state b state action))"
    and cn: "cells h' n = (cells h n)
               \<lparr>child_nodes := AList.update action (next_free h) (child_nodes (cells h n)),
                untried_actions := remove1 action (untried_actions (cells h n))\<rparr>"
    and co: "\<forall>j. j \<noteq> n \<and> j \<noteq> next_free h \<longrightarrow> cells h' j = cells h j"
    using expand_leaf_step [of b state h n rs action "stl rs"] by blast
  have key: "map_of (child_nodes (cells h' n)) action = Some (next_free h)"
    by (simp add: cn update_conv')
  have gone: "distinct (untried_actions (cells h n)) \<longrightarrow>
                action \<notin> set (untried_actions (cells h' n))"
    by (simp add: cn)
  show "\<exists>action h'.
           action \<in> set (untried_actions (cells h n))
           \<and> choice rs (untried_actions (cells h n)) = Inr (action, stl rs)
           \<and> expand_leaf b h rs n state =
               Inr (h', next_free h, next_state b state action, stl rs)
           \<and> cells h' (next_free h) =
               MCTSNode (Some n) (Some action) (legal_actions b (next_state b state action))
           \<and> untried_actions (cells h' n) = remove1 action (untried_actions (cells h n))
           \<and> child_nodes (cells h' n) =
               AList.update action (next_free h) (child_nodes (cells h n))
           \<and> parent (cells h' n) = parent (cells h n)
           \<and> parent_action (cells h' n) = parent_action (cells h n)
           \<and> visits (cells h' n) = visits (cells h n)
           \<and> wins (cells h' n) = wins (cells h n)
           \<and> (\<forall>j. j \<noteq> n \<and> j \<noteq> next_free h \<longrightarrow> cells h' j = cells h j)
           \<and> next_free h' = Suc (next_free h)
           \<and> map_of (child_nodes (cells h' n)) action = Some (next_free h)
           \<and> (distinct (untried_actions (cells h n)) \<longrightarrow>
                action \<notin> set (untried_actions (cells h' n)))"
    using mem ch ex nf cc co key gone
    by (intro exI [of _ action] exI [of _ h']) (simp add: cn)
qed

theorem expand_leaf_contract_witness:
  "is_ended (demo_board (1::int)) 2
   \<and> expand_leaf (demo_board (1::int)) demo_root_heap (sconst 0) 0 2 =
       Inr (demo_root_heap, 0, 2, sconst 0)
   \<and> \<not> is_ended (demo_board (1::int)) 0
   \<and> untried_actions (cells demo_root_heap 0) = [1, 2, 3]
   \<and> 0 < next_free demo_root_heap
   \<and> (\<exists>h'. expand_leaf (demo_board (1::int)) demo_root_heap (sconst 0) 0 0 =
              Inr (h', 1, 1, sconst 0)
         \<and> cells h' 1 = MCTSNode (Some 0) (Some 1) []
         \<and> untried_actions (cells h' 0) = [2, 3]
         \<and> child_nodes (cells h' 0) = [(1, 1)])"
proof -
  have e2: "is_ended (demo_board (1::int)) 2" and e0: "\<not> is_ended (demo_board (1::int)) 0"
    by (simp_all add: demo_board_def)
  have u: "untried_actions (cells demo_root_heap 0) = [1, 2, 3]"
    and c: "child_nodes (cells demo_root_heap 0) = []"
    and nf: "next_free demo_root_heap = 1"
    by (simp_all add: demo_root_heap_def alloc_def empty_heap_def MCTSNode_def)
  have noop: "expand_leaf (demo_board (1::int)) demo_root_heap (sconst 0) 0 2 =
       Inr (demo_root_heap, 0, 2, sconst 0)"
    using expand_leaf_contract [of "demo_board (1::int)" 2 demo_root_heap 0 "sconst 0"] e2
    by simp
  have "\<exists>h'. expand_leaf (demo_board (1::int)) demo_root_heap (sconst 0) 0 0 =
              Inr (h', 1, 1, sconst 0)
         \<and> cells h' 1 = MCTSNode (Some 0) (Some 1) []
         \<and> untried_actions (cells h' 0) = [2, 3]
         \<and> child_nodes (cells h' 0) = [(1, 1)]"
  proof -
    have pre: "\<not> is_ended (demo_board (1::int)) 0
        \<and> untried_actions (cells demo_root_heap 0) \<noteq> [] \<and> 0 < next_free demo_root_heap"
      using e0 u nf by simp
    from expand_leaf_contract [of "demo_board (1::int)" 0 demo_root_heap 0 "sconst 0",
        THEN conjunct2, rule_format, OF pre]
    obtain action h' where
      A: "choice (sconst 0) (untried_actions (cells demo_root_heap 0)) =
            Inr (action, stl (sconst 0))"
      and B: "expand_leaf (demo_board (1::int)) demo_root_heap (sconst 0) 0 0 =
            Inr (h', next_free demo_root_heap, next_state (demo_board (1::int)) 0 action,
                 stl (sconst 0))"
      and C: "cells h' (next_free demo_root_heap) =
            MCTSNode (Some 0) (Some action)
              (legal_actions (demo_board (1::int)) (next_state (demo_board (1::int)) 0 action))"
      and D: "untried_actions (cells h' 0) =
            remove1 action (untried_actions (cells demo_root_heap 0))"
      and E: "child_nodes (cells h' 0) =
            AList.update action (next_free demo_root_heap)
              (child_nodes (cells demo_root_heap 0))"
      by blast
    have act: "action = 1" using A by (simp add: u choice_def)
    have "expand_leaf (demo_board (1::int)) demo_root_heap (sconst 0) 0 0 =
              Inr (h', 1, 1, sconst 0)"
      using B by (simp add: act nf demo_board_def)
    moreover have "cells h' 1 = MCTSNode (Some 0) (Some 1) []"
      using C by (simp add: act nf demo_board_def)
    moreover have "untried_actions (cells h' 0) = [2, 3]"
      using D by (simp add: act u)
    moreover have "child_nodes (cells h' 0) = [(1, 1)]"
      using E by (simp add: act c nf)
    ultimately show ?thesis by blast
  qed
  then show ?thesis using e2 e0 u nf noop by simp
qed

section \<open>Properties of rollout\<close>

lemma rollout_v_ended: "is_ended b s \<Longrightarrow> rollout_v b rs s = Some (Inr (s, rs))"
  by (subst rollout_v.simps) simp

lemma rollout_m_ended: "is_ended b s \<Longrightarrow> rollout_m b truthy rs s = Some (Inr (s, rs))"
  by (subst rollout_m.simps) simp

lemma winning_scan_v_find:
  assumes "\<forall>move \<in> set moves.
             is_ended b (next_state b s move) \<longrightarrow>
               (\<exists>points v. points_values b (next_state b s move) = Some points
                          \<and> points (current_player b s) = Some v)"
  shows "winning_scan_v b s moves =
           Inr (map_option (next_state b s) (find (wins_at_once b s) moves))"
  using assms
proof (induction moves)
  case Nil
  show ?case by simp
next
  case (Cons move moves)
  show ?case
  proof (cases "is_ended b (next_state b s move)")
    case True
    then obtain points v where "points_values b (next_state b s move) = Some points"
      and "points (current_player b s) = Some v"
      using Cons.prems by auto
    then show ?thesis
      using True Cons by (simp add: wins_at_once_def)
  next
    case False
    then show ?thesis
      using Cons by (simp add: wins_at_once_def)
  qed
qed

text \<open>
  One step of \<^verbatim>\<open>rollout\<close> in \<^verbatim>\<open>mcts_vanilla.py\<close>: the first winning move is taken and
  its successor returned; without a winning move the step is a draw of \<^verbatim>\<open>choice\<close> among
  all legal actions.
\<close>

lemma rollout_v_step:
  assumes "\<not> is_ended b s" and "scored b s"
  shows "rollout_v b rs s =
           (case find (wins_at_once b s) (legal_actions b s) of
              Some move \<Rightarrow> Some (Inr (next_state b s move, rs))
            | None \<Rightarrow>
                (case choice rs (legal_actions b s) of
                   Inl e \<Rightarrow> Some (Inl e)
                 | Inr (action, rs') \<Rightarrow> rollout_v b rs' (next_state b s action)))"
proof -
  have "winning_scan_v b s (legal_actions b s) =
      Inr (map_option (next_state b s) (find (wins_at_once b s) (legal_actions b s)))"
    using assms(2) unfolding scored_def by (rule winning_scan_v_find)
  then show ?thesis
    using assms(1) by (subst rollout_v.simps) (simp split: option.splits)
qed

lemma rollout_v_forced_win:
  assumes "\<not> is_ended b s" and "scored b s"
    and "move \<in> set (legal_actions b s)" and "wins_at_once b s move"
  shows "\<exists>w. w \<in> set (legal_actions b s) \<and> wins_at_once b s w
           \<and> rollout_v b rs s = Some (Inr (next_state b s w, rs))"
proof -
  from assms(3,4) obtain w where f: "find (wins_at_once b s) (legal_actions b s) = Some w"
    by (cases "find (wins_at_once b s) (legal_actions b s)") (auto simp: find_None_iff)
  then have "w \<in> set (legal_actions b s)" and "wins_at_once b s w"
    by (auto simp: find_Some_iff)
  moreover have "rollout_v b rs s = Some (Inr (next_state b s w, rs))"
    using rollout_v_step [OF assms(1,2), of rs] by (simp add: f)
  ultimately show ?thesis by blast
qed

text \<open>
  One step of \<^verbatim>\<open>rollout\<close> in \<^verbatim>\<open>mcts_modified.py\<close>: the first move with an ended
  successor is taken when it counts as true, whatever the score of the successor.
\<close>

lemma rollout_m_step:
  assumes "\<not> is_ended b s"
  shows "rollout_m b truthy rs s =
           (case (case find (\<lambda>move. is_ended b (next_state b s move)) (legal_actions b s) of
                    Some m \<Rightarrow> if truthy m then Inr (m, rs) else choice rs (legal_actions b s)
                  | None \<Rightarrow> choice rs (legal_actions b s)) of
              Inl e \<Rightarrow> Some (Inl e)
            | Inr (action, rs') \<Rightarrow> rollout_m b truthy rs' (next_state b s action))"
  using assms by (subst rollout_m.simps) (simp add: Let_def)

text \<open>
  C1 on the example board: from state 0 the player to move has the winning move 2, and
  move 1 ends the game in a draw. \<^verbatim>\<open>rollout\<close> of \<^verbatim>\<open>mcts_vanilla.py\<close> returns the won
  state 2 for every random source; \<^verbatim>\<open>rollout\<close> of \<^verbatim>\<open>mcts_modified.py\<close> returns the drawn
  state 1 for every random source.
\<close>

theorem rollout_m_misses_win:
  "wins_at_once (demo_board (1::int)) 0 2
   \<and> \<not> wins_at_once (demo_board (1::int)) 0 1
   \<and> legal_actions (demo_board (1::int)) 0 = [1, 2, 3]
   \<and> rollout_v (demo_board (1::int)) rs 0 = Some (Inr (2, rs))
   \<and> rollout_m (demo_board (1::int)) truthy_nat rs 0 = Some (Inr (1, rs))"
proof -
  have w2: "wins_at_once (demo_board (1::int)) 0 2"
    and w1: "\<not> wins_at_once (demo_board (1::int)) 0 1"
    and la: "legal_actions (demo_board (1::int)) 0 = [1, 2, 3]"
    and ne: "\<not> is_ended (demo_board (1::int)) 0"
    and e1: "is_ended (demo_board (1::int)) 1"
    by (simp_all add: wins_at_once_def demo_board_def)
  have sc: "scored (demo_board (1::int)) 0"
    by (simp add: scored_def demo_board_def)
  have fv: "find (wins_at_once (demo_board (1::int)) 0)
               (legal_actions (demo_board (1::int)) 0) = Some 2"
    by (simp add: wins_at_once_def demo_board_def)
  have fm: "find (\<lambda>move. is_ended (demo_board (1::int)) (next_state (demo_board (1::int)) 0 move))
               (legal_actions (demo_board (1::int)) 0) = Some 1"
    by (simp add: demo_board_def)
  have v: "rollout_v (demo_board (1::int)) rs 0 = Some (Inr (2, rs))"
    unfolding rollout_v_step [OF ne sc, of rs] fv by (simp add: demo_board_def)
  have "rollout_m (demo_board (1::int)) truthy_nat rs 0 =
      rollout_m (demo_board (1::int)) truthy_nat rs 1"
    unfolding rollout_m_step [OF ne, of truthy_nat rs] fm by (simp add: demo_board_def truthy_nat_def)
  also have "\<dots> = Some (Inr (1, rs))"
    using e1 by (rule rollout_m_ended)
  finally have m: "rollout_m (demo_board (1::int)) truthy_nat rs 0 = Some (Inr (1, rs))" .
  show ?thesis using w2 w1 la v m by simp
qed

section \<open>Properties of the search driver\<close>

lemma traverse_nodes_v_stop:
  "is_ended b s \<or> untried_actions (cells h n) \<noteq> [] \<Longrightarrow>
     traverse_nodes_v b h n s identity = Some (Inr (n, s))"
  by (subst traverse_nodes_v.simps) auto

lemma traverse_nodes_m_stop:
  "is_ended b s \<or> untried_actions (cells h n) \<noteq> [] \<Longrightarrow>
     traverse_nodes_m b h n s identity = Some (Inr (n, s))"
  by (subst traverse_nodes_m.simps) auto

lemma traverse_nodes_v_childless:
  "\<not> is_ended b s \<Longrightarrow> untried_actions (cells h n) = [] \<Longrightarrow> child_nodes (cells h n) = [] \<Longrightarrow>
     traverse_nodes_v b h n s identity = Some (Inl AttributeError)"
  by (subst traverse_nodes_v.simps) simp

lemma traverse_nodes_m_childless:
  "\<not> is_ended b s \<Longrightarrow> untried_actions (cells h n) = [] \<Longrightarrow> child_nodes (cells h n) = [] \<Longrightarrow>
     traverse_nodes_m b h n s identity = Some (Inl ValueError)"
  by (subst traverse_nodes_m.simps) (simp add: py_max_def)

lemma barren_root_credit: "barren_root h r \<Longrightarrow> barren_root (put h r (credit won (cells h r))) r"
  by (simp add: barren_root_def put_def credit_def)

lemma backpropagate_root:
  "parent (cells h r) = None \<Longrightarrow>
     backpropagate h (Some r) won = Some (put h r (credit won (cells h r)))"
  by (simp add: backpropagate_Some backpropagate_None)

lemma think_iter_v_barren_ended:
  assumes "is_ended b s" and "barren_root h r"
  shows "think_iter_v b identity r s h rs =
           (case points_values b s of
              None \<Rightarrow> Some (Inl TypeError)
            | Some points \<Rightarrow>
                (case points identity of
                   None \<Rightarrow> Some (Inl KeyError)
                 | Some v \<Rightarrow>
                     Some (Inr (put h r (credit (if v = 1 then 1 else if v = - 1 then 0 else 1 / 2)
                                           (cells h r)), rs))))"
proof -
  have p: "parent (cells h r) = None" using assms(2) by (simp add: barren_root_def)
  show ?thesis
    using assms(1)
    by (simp add: think_iter_v_def traverse_nodes_v_stop rollout_v_ended
        backpropagate_root [OF p] split: option.splits)
qed

lemma think_iter_m_barren_ended:
  assumes "is_ended b s" and "barren_root h r"
  shows "think_iter_m b truthy identity r s h rs =
           (case points_values b s of
              None \<Rightarrow> Some (Inl AttributeError)
            | Some points \<Rightarrow>
                Some (Inr (put h r (credit (case points identity of None \<Rightarrow> 0 | Some v \<Rightarrow> v)
                                      (cells h r)), rs)))"
proof -
  have p: "parent (cells h r) = None" using assms(2) by (simp add: barren_root_def)
  show ?thesis
    using assms(1)
    by (simp add: think_iter_m_def traverse_nodes_m_stop rollout_m_ended
        backpropagate_root [OF p] split: option.splits)
qed

lemma think_iter_v_barren_open:
  "\<not> is_ended b s \<Longrightarrow> barren_root h r \<Longrightarrow>
     think_iter_v b identity r s h rs = Some (Inl AttributeError)"
  by (simp add: think_iter_v_def barren_root_def traverse_nodes_v_childless)

lemma think_iter_m_barren_open:
  "\<not> is_ended b s \<Longrightarrow> barren_root h r \<Longrightarrow>
     think_iter_m b truthy identity r s h rs = Some (Inl ValueError)"
  by (simp add: think_iter_m_def barren_root_def traverse_nodes_m_childless)

lemma repeat_iter_invariant:
  assumes step: "\<And>h rs. I h \<Longrightarrow>
            (\<exists>e. body h rs = Some (Inl e) \<and> P e) \<or> (\<exists>h' rs'. body h rs = Some (Inr (h', rs')) \<and> I h')"
    and "I h"
  shows "(\<exists>e. repeat_iter body k h rs = Some (Inl e) \<and> P e)
         \<or> (\<exists>h' rs'. repeat_iter body k h rs = Some (Inr (h', rs')) \<and> I h')"
  using assms(2)
proof (induction k arbitrary: h rs)
  case 0
  then show ?case by simp
next
  case (Suc k)
  from step [OF Suc.prems, of rs] show ?case
  proof
    assume "\<exists>e. body h rs = Some (Inl e) \<and> P e"
    then show ?thesis by auto
  next
    assume "\<exists>h' rs'. body h rs = Some (Inr (h', rs')) \<and> I h'"
    then obtain h' rs' where b: "body h rs = Some (Inr (h', rs'))" and i: "I h'"
      by blast
    from Suc.IH [OF i, of rs'] show ?thesis by (simp add: b)
  qed
qed

lemma get_best_action_v_barren: "barren_root h r \<Longrightarrow> get_best_action_v h r = Inl ValueError"
  by (simp add: get_best_action_v_def barren_root_def py_max_def)

lemma get_best_action_m_barren: "barren_root h r \<Longrightarrow> get_best_action_m h r = Inl ValueError"
  by (simp add: get_best_action_m_def barren_root_def py_max_def)

lemma barren_root_init: "barren_root (fst (alloc empty_heap (MCTSNode None None []))) 0"
  by (simp add: barren_root_def alloc_def empty_heap_def MCTSNode_def)

lemma think_v_barren:
  fixes b :: "('s, 'a, int) board"
  assumes "legal_actions b s = []"
    and step: "\<And>h rs. barren_root h 0 \<Longrightarrow>
            (\<exists>e. think_iter_v b (current_player b s) 0 s h rs = Some (Inl e) \<and> P e)
            \<or> (\<exists>h' rs'. think_iter_v b (current_player b s) 0 s h rs = Some (Inr (h', rs'))
                        \<and> barren_root h' 0)"
    and "P ValueError"
  shows "\<exists>e. think_v b num_nodes rs s = Some (Inl e) \<and> P e"
proof -
  let ?h0 = "fst (alloc empty_heap (MCTSNode None None ([]::'a list)))"
  have unf: "think_v b num_nodes rs s =
      (case repeat_iter (think_iter_v b (current_player b s) 0 s) (nat num_nodes) ?h0 rs of
           None \<Rightarrow> None
         | Some (Inl e) \<Rightarrow> Some (Inl e)
         | Some (Inr (h, rs')) \<Rightarrow> Some (get_best_action_v h 0))"
    by (simp add: think_v_def assms(1) alloc_def empty_heap_def)
  from repeat_iter_invariant [of "\<lambda>h. barren_root h 0"
      "think_iter_v b (current_player b s) 0 s" P ?h0 "nat num_nodes" rs, OF step barren_root_init]
  show ?thesis
  proof
    assume "\<exists>e. repeat_iter (think_iter_v b (current_player b s) 0 s) (nat num_nodes) ?h0 rs
                  = Some (Inl e) \<and> P e"
    then show ?thesis by (auto simp: unf)
  next
    assume "\<exists>h' rs'. repeat_iter (think_iter_v b (current_player b s) 0 s) (nat num_nodes) ?h0 rs
                  = Some (Inr (h', rs')) \<and> barren_root h' 0"
    then show ?thesis
      using assms(3) by (auto simp: unf get_best_action_v_barren)
  qed
qed

lemma think_m_barren:
  fixes b :: "('s, 'a, 'a) board"
  assumes "legal_actions b s = []"
    and step: "\<And>h rs. barren_root h 0 \<Longrightarrow>
            (\<exists>e. think_iter_m b truthy (current_player b s) 0 s h rs = Some (Inl e) \<and> P e)
            \<or> (\<exists>h' rs'. think_iter_m b truthy (current_player b s) 0 s h rs = Some (Inr (h', rs'))
                        \<and> barren_root h' 0)"
    and "P ValueError"
  shows "\<exists>e. think_m b truthy num_nodes rs s = Some (Inl e) \<and> P e"
proof -
  let ?h0 = "fst (alloc empty_heap (MCTSNode None None ([]::'a list)))"
  have unf: "think_m b truthy num_nodes rs s =
      (case repeat_iter (think_iter_m b truthy (current_player b s) 0 s) (nat num_nodes) ?h0 rs of
           None \<Rightarrow> None
         | Some (Inl e) \<Rightarrow> Some (Inl e)
         | Some (Inr (h, rs')) \<Rightarrow> Some (get_best_action_m h 0))"
    by (simp add: think_m_def assms(1) alloc_def empty_heap_def)
  from repeat_iter_invariant [of "\<lambda>h. barren_root h 0"
      "think_iter_m b truthy (current_player b s) 0 s" P ?h0 "nat num_nodes" rs,
      OF step barren_root_init]
  show ?thesis
  proof
    assume "\<exists>e. repeat_iter (think_iter_m b truthy (current_player b s) 0 s) (nat num_nodes) ?h0 rs
                  = Some (Inl e) \<and> P e"
    then show ?thesis by (auto simp: unf)
  next
    assume "\<exists>h' rs'. repeat_iter (think_iter_m b truthy (current_player b s) 0 s) (nat num_nodes) ?h0 rs
                  = Some (Inr (h', rs')) \<and> barren_root h' 0"
    then show ?thesis
      using assms(3) by (auto simp: unf get_best_action_m_barren)
  qed
qed

text \<open>
  C9. On a state without legal actions \<^verbatim>\<open>think\<close> of either module returns no action: it
  ends with an error, for every budget and every random source. When the state is an
  ended one whose score the board gives (in \<^verbatim>\<open>mcts_vanilla.py\<close>: for the player to
  move), every pass leaves the root without children, and the error is the \<^verbatim>\<open>ValueError\<close>
  that \<^verbatim>\<open>max\<close> raises in \<^verbatim>\<open>get_best_action\<close> on the empty collection of children.
\<close>

theorem think_fails_without_legal_actions:
  fixes bv :: "('s, 'a, int) board" and bm :: "('t, 'c, 'c) board"
  shows "(legal_actions bv sv = [] \<longrightarrow>
            (\<exists>e. think_v bv num_nodes rs sv = Some (Inl e))
            \<and> (is_ended bv sv
                 \<and> (\<exists>points v. points_values bv sv = Some points
                               \<and> points (current_player bv sv) = Some v)
               \<longrightarrow> think_v bv num_nodes rs sv = Some (Inl ValueError)))
         \<and> (legal_actions bm sm = [] \<longrightarrow>
            (\<exists>e. think_m bm truthy num_nodes rs sm = Some (Inl e))
            \<and> (is_ended bm sm \<and> points_values bm sm \<noteq> None
               \<longrightarrow> think_m bm truthy num_nodes rs sm = Some (Inl ValueError)))"
proof (intro conjI impI)
  assume la: "legal_actions bv sv = []"
  have "\<exists>e. think_v bv num_nodes rs sv = Some (Inl e) \<and> True"
  proof (rule think_v_barren [OF la])
    fix h :: "'a heap" and rs
    assume b: "barren_root h 0"
    show "(\<exists>e. think_iter_v bv (current_player bv sv) 0 sv h rs = Some (Inl e) \<and> True)
          \<or> (\<exists>h' rs'. think_iter_v bv (current_player bv sv) 0 sv h rs = Some (Inr (h', rs'))
                      \<and> barren_root h' 0)"
    proof (cases "is_ended bv sv")
      case True
      show ?thesis
        unfolding think_iter_v_barren_ended [OF True b]
        using barren_root_credit [OF b] by (auto split: option.splits)
    next
      case False
      then show ?thesis by (simp add: think_iter_v_barren_open [OF False b])
    qed
  qed simp
  then show "\<exists>e. think_v bv num_nodes rs sv = Some (Inl e)" by simp
next
  assume la: "legal_actions bv sv = []"
    and "is_ended bv sv
         \<and> (\<exists>points v. points_values bv sv = Some points
                       \<and> points (current_player bv sv) = Some v)"
  then obtain points v where e: "is_ended bv sv" and p: "points_values bv sv = Some points"
    and v: "points (current_player bv sv) = Some v"
    by blast
  have "\<exists>e. think_v bv num_nodes rs sv = Some (Inl e) \<and> e = ValueError"
  proof (rule think_v_barren [OF la])
    fix h :: "'a heap" and rs
    assume b: "barren_root h 0"
    show "(\<exists>e. think_iter_v bv (current_player bv sv) 0 sv h rs = Some (Inl e) \<and> e = ValueError)
          \<or> (\<exists>h' rs'. think_iter_v bv (current_player bv sv) 0 sv h rs = Some (Inr (h', rs'))
                      \<and> barren_root h' 0)"
      unfolding think_iter_v_barren_ended [OF e b]
      using barren_root_credit [OF b] by (simp add: p v)
  qed simp
  then show "think_v bv num_nodes rs sv = Some (Inl ValueError)" by simp
next
  assume la: "legal_actions bm sm = []"
  have "\<exists>e. think_m bm truthy num_nodes rs sm = Some (Inl e) \<and> True"
  proof (rule think_m_barren [OF la])
    fix h :: "'c heap" and rs
    assume b: "barren_root h 0"
    show "(\<exists>e. think_iter_m bm truthy (current_player bm sm) 0 sm h rs = Some (Inl e) \<and> True)
          \<or> (\<exists>h' rs'. think_iter_m bm truthy (current_player bm sm) 0 sm h rs
                        = Some (Inr (h', rs'))
                      \<and> barren_root h' 0)"
    proof (cases "is_ended bm sm")
      case True
      show ?thesis
        unfolding think_iter_m_barren_ended [OF True b]
        using barren_root_credit [OF b] by (auto split: option.splits)
    next
      case False
      then show ?thesis by (simp add: think_iter_m_barren_open [OF False b])
    qed
  qed simp
  then show "\<exists>e. think_m bm truthy num_nodes rs sm = Some (Inl e)" by simp
next
  assume la: "legal_actions bm sm = []"
    and "is_ended bm sm \<and> points_values bm sm \<noteq> None"
  then obtain points where e: "is_ended bm sm" and p: "points_values bm sm = Some points"
    by auto
  have "\<exists>e. think_m bm truthy num_nodes rs sm = Some (Inl e) \<and> e = ValueError"
  proof (rule think_m_barren [OF la])
    fix h :: "'c heap" and rs
    assume b: "barren_root h 0"
    show "(\<exists>e. think_iter_m bm truthy (current_player bm sm) 0 sm h rs = Some (Inl e)
                \<and> e = ValueError)
          \<or> (\<exists>h' rs'. think_iter_m bm truthy (current_player bm sm) 0 sm h rs
                        = Some (Inr (h', rs'))
                      \<and> barren_root h' 0)"
      unfolding think_iter_m_barren_ended [OF e b]
      using barren_root_credit [OF b] by (simp add: p)
  qed simp
  then show "think_m bm truthy num_nodes rs sm = Some (Inl ValueError)" by simp
qed

theorem think_fails_without_legal_actions_witness:
  "legal_actions (demo_board (1::int)) 1 = []
   \<and> is_ended (demo_board (1::int)) 1
   \<and> think_v (demo_board (1::int)) 1000 (sconst 0) 1 = (Some (Inl ValueError) :: (error + nat) option)
   \<and> legal_actions (demo_board (1::nat)) 1 = []
   \<and> is_ended (demo_board (1::nat)) 1
   \<and> think_m (demo_board (1::nat)) truthy_nat 1000 (sconst 0) 1 = Some (Inl ValueError)"
proof -
  have v: "legal_actions (demo_board (1::int)) 1 = []" "is_ended (demo_board (1::int)) 1"
    "\<exists>points v. points_values (demo_board (1::int)) 1 = Some points
                \<and> points (current_player (demo_board (1::int)) 1) = Some v"
    by (simp_all add: demo_board_def)
  have m: "legal_actions (demo_board (1::nat)) 1 = []" "is_ended (demo_board (1::nat)) 1"
    "points_values (demo_board (1::nat)) 1 \<noteq> None"
    by (simp_all add: demo_board_def)
  show ?thesis
    using think_fails_without_legal_actions [of "demo_board (1::int)" 1 1000 "sconst 0"
        "demo_board (1::nat)" 1 truthy_nat] v m
    by simp
qed

text \<open>The phases of a pass of the loop body that completes.\<close>

lemma think_iter_v_phases:
  assumes "think_iter_v bv idv rv sv hv rsv = Some (Inr (hv', rsv'))"
  obtains node cur h1 node1 cur1 rs1 final points v where
    "traverse_nodes_v bv hv rv sv idv = Some (Inr (node, cur))"
    "(if \<not> is_ended bv cur then expand_leaf bv hv rsv node cur
      else Inr (hv, node, cur, rsv)) = Inr (h1, node1, cur1, rs1)"
    "rollout_v bv rs1 cur1 = Some (Inr (final, rsv'))"
    "points_values bv final = Some points" "points idv = Some v"
    "backpropagate h1 (Some node1)
       (if v = 1 then 1 else if v = - 1 then 0 else 1 / 2) = Some hv'"
proof -
  note A = assms
  from A obtain node cur where t: "traverse_nodes_v bv hv rv sv idv = Some (Inr (node, cur))"
    unfolding think_iter_v_def by (auto split: option.splits sum.splits)
  let ?x = "if \<not> is_ended bv cur then expand_leaf bv hv rsv node cur
            else Inr (hv, node, cur, rsv)"
  from A obtain h1 node1 cur1 rs1 where x: "?x = Inr (h1, node1, cur1, rs1)"
    unfolding think_iter_v_def t by (cases ?x) auto
  from A obtain final rs2 where r: "rollout_v bv rs1 cur1 = Some (Inr (final, rs2))"
    unfolding think_iter_v_def t by (simp add: x split: option.splits sum.splits prod.splits)
  from A obtain points where p: "points_values bv final = Some points"
    unfolding think_iter_v_def t by (simp add: x r split: option.splits)
  from A obtain v where v: "points idv = Some v"
    unfolding think_iter_v_def t by (simp add: x r p split: option.splits)
  from A have "backpropagate h1 (Some node1)
               (if v = 1 then 1 else if v = - 1 then 0 else 1 / 2) = Some hv' \<and> rs2 = rsv'"
    unfolding think_iter_v_def t by (auto simp: x r p v split: option.splits)
  with t x r p v that show ?thesis by blast
qed

lemma think_iter_m_phases:
  assumes "think_iter_m bm truthy idm rm sm hm rsm = Some (Inr (hm', rsm'))"
  obtains node cur h1 node1 cur1 rs1 final points where
    "traverse_nodes_m bm hm rm sm idm = Some (Inr (node, cur))"
    "(if \<not> is_ended bm cur then expand_leaf bm hm rsm node cur
      else Inr (hm, node, cur, rsm)) = Inr (h1, node1, cur1, rs1)"
    "rollout_m bm truthy rs1 cur1 = Some (Inr (final, rsm'))"
    "points_values bm final = Some points"
    "backpropagate h1 (Some node1)
       (case points idm of None \<Rightarrow> 0 | Some v \<Rightarrow> v) = Some hm'"
proof -
  note A = assms
  from A obtain node cur where t: "traverse_nodes_m bm hm rm sm idm = Some (Inr (node, cur))"
    unfolding think_iter_m_def by (auto split: option.splits sum.splits)
  let ?x = "if \<not> is_ended bm cur then expand_leaf bm hm rsm node cur
            else Inr (hm, node, cur, rsm)"
  from A obtain h1 node1 cur1 rs1 where x: "?x = Inr (h1, node1, cur1, rs1)"
    unfolding think_iter_m_def t by (cases ?x) auto
  from A obtain final rs2 where r: "rollout_m bm truthy rs1 cur1 = Some (Inr (final, rs2))"
    unfolding think_iter_m_def t by (simp add: x split: option.splits sum.splits prod.splits)
  from A obtain points where p: "points_values bm final = Some points"
    unfolding think_iter_m_def t by (simp add: x r split: option.splits)
  from A have "backpropagate h1 (Some node1)
               (case points idm of None \<Rightarrow> 0 | Some v \<Rightarrow> v) = Some hm' \<and> rs2 = rsm'"
    unfolding think_iter_m_def t by (auto simp: x r p split: option.splits)
  with t x r p that show ?thesis by blast
qed

text \<open>
  C2, as the code has it. In every pass of \<^verbatim>\<open>think\<close> that completes, the scalar handed
  to \<^verbatim>\<open>backpropagate\<close> is computed from the points value \<open>v\<close> of the searching identity
  at the final state of the rollout. In \<^verbatim>\<open>mcts_vanilla.py\<close> it is 1 when \<open>v = 1\<close>, 0 when
  \<open>v = -1\<close> and 0.5 otherwise. In \<^verbatim>\<open>mcts_modified.py\<close> it is \<open>v\<close> itself, and 0 when
  the points have no entry for the identity.
\<close>

theorem think_outcome_scalar:
  "(think_iter_v bv idv rv sv hv rsv = Some (Inr (hv', rsv')) \<longrightarrow>
      (\<exists>node cur h1 node1 cur1 rs1 final points v.
         traverse_nodes_v bv hv rv sv idv = Some (Inr (node, cur))
         \<and> (if \<not> is_ended bv cur then expand_leaf bv hv rsv node cur
             else Inr (hv, node, cur, rsv)) = Inr (h1, node1, cur1, rs1)
         \<and> rollout_v bv rs1 cur1 = Some (Inr (final, rsv'))
         \<and> points_values bv final = Some points \<and> points idv = Some v
         \<and> backpropagate h1 (Some node1)
               (if v = 1 then 1 else if v = - 1 then 0 else 1 / 2) = Some hv'))
   \<and> (think_iter_m bm truthy idm rm sm hm rsm = Some (Inr (hm', rsm')) \<longrightarrow>
      (\<exists>node cur h1 node1 cur1 rs1 final points.
         traverse_nodes_m bm hm rm sm idm = Some (Inr (node, cur))
         \<and> (if \<not> is_ended bm cur then expand_leaf bm hm rsm node cur
             else Inr (hm, node, cur, rsm)) = Inr (h1, node1, cur1, rs1)
         \<and> rollout_m bm truthy rs1 cur1 = Some (Inr (final, rsm'))
         \<and> points_values bm final = Some points
         \<and> backpropagate h1 (Some node1)
               (case points idm of None \<Rightarrow> 0 | Some v \<Rightarrow> v) = Some hm'))"
proof (intro conjI impI)
  assume "think_iter_v bv idv rv sv hv rsv = Some (Inr (hv', rsv'))"
  then show "\<exists>node cur h1 node1 cur1 rs1 final points v.
         traverse_nodes_v bv hv rv sv idv = Some (Inr (node, cur))
         \<and> (if \<not> is_ended bv cur then expand_leaf bv hv rsv node cur
             else Inr (hv, node, cur, rsv)) = Inr (h1, node1, cur1, rs1)
         \<and> rollout_v bv rs1 cur1 = Some (Inr (final, rsv'))
         \<and> points_values bv final = Some points \<and> points idv = Some v
         \<and> backpropagate h1 (Some node1)
               (if v = 1 then 1 else if v = - 1 then 0 else 1 / 2) = Some hv'"
    by (rule think_iter_v_phases) blast
next
  assume "think_iter_m bm truthy idm rm sm hm rsm = Some (Inr (hm', rsm'))"
  then show "\<exists>node cur h1 node1 cur1 rs1 final points.
         traverse_nodes_m bm hm rm sm idm = Some (Inr (node, cur))
         \<and> (if \<not> is_ended bm cur then expand_leaf bm hm rsm node cur
             else Inr (hm, node, cur, rsm)) = Inr (h1, node1, cur1, rs1)
         \<and> rollout_m bm truthy rs1 cur1 = Some (Inr (final, rsm'))
         \<and> points_values bm final = Some points
         \<and> backpropagate h1 (Some node1)
               (case points idm of None \<Rightarrow> 0 | Some v \<Rightarrow> v) = Some hm'"
    by (rule think_iter_m_phases) blast
qed

lemma demo_untried: "untried_actions (cells demo_root_heap 0) = [1, 2, 3]"
  by (simp add: demo_root_heap_def alloc_def empty_heap_def MCTSNode_def)

lemma demo_traverse_v:
  "traverse_nodes_v (demo_board p) demo_root_heap 0 0 identity = Some (Inr (0, 0))"
  by (rule traverse_nodes_v_stop) (simp add: demo_untried)

lemma demo_traverse_m:
  "traverse_nodes_m (demo_board p) demo_root_heap 0 0 identity = Some (Inr (0, 0))"
  by (rule traverse_nodes_m_stop) (simp add: demo_untried)

lemma demo_pass_v:
  "credited 1 (think_iter_v (demo_board 1) 1 0 0 demo_root_heap (sconst 0)) = Some (1 / 2)"
  "credited 1 (think_iter_v (demo_board 1) 1 0 0 demo_root_heap (sconst 1)) = Some 1"
  "credited 1 (think_iter_v (demo_board 1) 1 0 0 demo_root_heap (sconst 2)) = Some 0"
  unfolding think_iter_v_def demo_traverse_v
  by (simp_all add: expand_leaf_def choice_def alloc_def put_def demo_root_heap_def
      empty_heap_def MCTSNode_def demo_board_def rollout_v_ended backpropagate_Some
      backpropagate_None credit_def credited_def Let_def)

lemma demo_pass_m:
  "credited 1 (think_iter_m (demo_board 1) truthy_nat 1 0 0 demo_root_heap (sconst 0)) = Some 0"
  "credited 1 (think_iter_m (demo_board 1) truthy_nat 1 0 0 demo_root_heap (sconst 1)) = Some 1"
  "credited 1 (think_iter_m (demo_board 1) truthy_nat 1 0 0 demo_root_heap (sconst 2))
     = Some (- 1)"
  unfolding think_iter_m_def demo_traverse_m
  by (simp_all add: expand_leaf_def choice_def alloc_def put_def demo_root_heap_def
      empty_heap_def MCTSNode_def demo_board_def rollout_m_ended backpropagate_Some
      backpropagate_None credit_def credited_def Let_def)

theorem think_outcome_scalar_witness:
  "\<exists>hv' rsv' hm' rsm'.
     think_iter_v (demo_board (1::int)) 1 0 0 demo_root_heap (sconst 0) = Some (Inr (hv', rsv'))
     \<and> (\<exists>node cur h1 node1 cur1 rs1 final points v.
         traverse_nodes_v (demo_board (1::int)) demo_root_heap 0 0 1 = Some (Inr (node, cur))
         \<and> (if \<not> is_ended (demo_board (1::int)) cur
             then expand_leaf (demo_board (1::int)) demo_root_heap (sconst 0) node cur
             else Inr (demo_root_heap, node, cur, sconst 0)) = Inr (h1, node1, cur1, rs1)
         \<and> rollout_v (demo_board (1::int)) rs1 cur1 = Some (Inr (final, rsv'))
         \<and> points_values (demo_board (1::int)) final = Some points \<and> points 1 = Some v
         \<and> backpropagate h1 (Some node1)
               (if v = 1 then 1 else if v = - 1 then 0 else 1 / 2) = Some hv')
     \<and> think_iter_m (demo_board (1::nat)) truthy_nat 1 0 0 demo_root_heap (sconst 2)
         = Some (Inr (hm', rsm'))
     \<and> (\<exists>node cur h1 node1 cur1 rs1 final points.
         traverse_nodes_m (demo_board (1::nat)) demo_root_heap 0 0 1 = Some (Inr (node, cur))
         \<and> (if \<not> is_ended (demo_board (1::nat)) cur
             then expand_leaf (demo_board (1::nat)) demo_root_heap (sconst 2) node cur
             else Inr (demo_root_heap, node, cur, sconst 2)) = Inr (h1, node1, cur1, rs1)
         \<and> rollout_m (demo_board (1::nat)) truthy_nat rs1 cur1 = Some (Inr (final, rsm'))
         \<and> points_values (demo_board (1::nat)) final = Some points
         \<and> backpropagate h1 (Some node1)
               (case points 1 of None \<Rightarrow> 0 | Some v \<Rightarrow> v) = Some hm')"
proof -
  obtain hv' rsv' where
    v: "think_iter_v (demo_board 1) 1 0 0 demo_root_heap (sconst 0) = Some (Inr (hv', rsv'))"
    using demo_pass_v(1) by (auto simp: credited_def split: option.splits sum.splits)
  obtain hm' rsm' where
    m: "think_iter_m (demo_board 1) truthy_nat 1 0 0 demo_root_heap (sconst 2)
          = Some (Inr (hm', rsm'))"
    using demo_pass_m(3) by (auto simp: credited_def split: option.splits sum.splits)
  note cv = think_outcome_scalar [THEN conjunct1, rule_format, OF v]
  note cm = think_outcome_scalar [THEN conjunct2, rule_format, OF m]
  show ?thesis
    by (rule exI [of _ hv'], rule exI [of _ rsv'], rule exI [of _ hm'], rule exI [of _ rsm'])
      (intro conjI v cv m cm)
qed

text \<open>
  C2 as stated fails on \<^verbatim>\<open>mcts_modified.py\<close>. On the example board the first pass from
  the root creates the node at address 1, whose wins are 0 until \<^verbatim>\<open>backpropagate\<close> adds
  the scalar. When the rollout ends in the lost state 3 (points value \<open>-1\<close>) the node is
  credited \<open>-1\<close>, not 0; when it ends in the drawn state 1 (points value 0) the node is
  credited 0, not 0.5.
\<close>

theorem think_m_scalar_counterexample:
  "points_values (demo_board (1::nat)) 3 = Some [1 \<mapsto> - 1]
   \<and> credited 1 (think_iter_m (demo_board 1) truthy_nat 1 0 0 demo_root_heap (sconst 2))
       = Some (- 1)
   \<and> points_values (demo_board (1::nat)) 1 = Some [1 \<mapsto> 0]
   \<and> credited 1 (think_iter_m (demo_board 1) truthy_nat 1 0 0 demo_root_heap (sconst 0))
       = Some 0"
  using demo_pass_m by (simp add: demo_board_def)

section \<open>Properties of selection\<close>

lemma max_loop_member: "max_loop key xs m mv = Inr r \<Longrightarrow> r \<in> set (m # xs)"
proof (induction xs arbitrary: m mv)
  case Nil
  then show ?case by simp
next
  case (Cons x xs)
  then show ?case
    by (cases "key x") (auto split: if_splits)
qed

lemma py_max_member: "py_max key xs = Inr r \<Longrightarrow> r \<in> set xs"
  by (cases xs) (auto simp: py_max_def split: sum.splits dest: max_loop_member)

lemma max_loop_greatest:
  assumes "\<forall>x \<in> set xs. key x = Inr (f x)"
  shows "\<exists>r. max_loop key xs m (f m) = Inr r \<and> r \<in> set (m # xs)
             \<and> (\<forall>x \<in> set (m # xs). f x \<le> f r)"
  using assms
proof (induction xs arbitrary: m)
  case Nil
  show ?case by simp
next
  case (Cons x xs)
  have kx: "key x = Inr (f x)" and rest: "\<forall>y \<in> set xs. key y = Inr (f y)"
    using Cons.prems by simp_all
  show ?case
  proof (cases "f m < f x")
    case True
    from Cons.IH [OF rest, of x] obtain r where
      r: "max_loop key xs x (f x) = Inr r" "r \<in> set (x # xs)" "\<forall>y \<in> set (x # xs). f y \<le> f r"
      by blast
    have "f m \<le> f r" using True r(3) by (meson less_le_trans list.set_intros(1) less_imp_le)
    then show ?thesis using True kx r by auto
  next
    case False
    from Cons.IH [OF rest, of m] obtain r where
      r: "max_loop key xs m (f m) = Inr r" "r \<in> set (m # xs)" "\<forall>y \<in> set (m # xs). f y \<le> f r"
      by blast
    have "f x \<le> f r" using False r(3) by (meson le_less_linear list.set_intros(1) order_trans)
    then show ?thesis using False kx r by auto
  qed
qed

lemma py_max_greatest:
  assumes "xs \<noteq> []" and "\<forall>x \<in> set xs. key x = Inr (f x)"
  shows "\<exists>r. py_max key xs = Inr r \<and> r \<in> set xs \<and> (\<forall>x \<in> set xs. f x \<le> f r)"
proof -
  from assms(1) obtain x rest where xs: "xs = x # rest" by (cases xs) auto
  have "\<forall>y \<in> set rest. key y = Inr (f y)" and kx: "key x = Inr (f x)"
    using assms(2) xs by simp_all
  from max_loop_greatest [OF this(1), of x] show ?thesis
    by (simp add: py_max_def xs kx)
qed

lemma ucb_v_not_NInf: "ucb_v nd par identity \<noteq> Inr NInf"
  by (simp add: ucb_v_def Let_def split: sum.splits)

lemma best_child_loop_v_max_loop:
  "best_child_loop_v h n identity items (Some m) mv =
     (case max_loop (\<lambda>child. ucb_v (cells h child) (cells h n) identity) (map snd items) m mv of
        Inl e \<Rightarrow> Inl e
      | Inr r \<Rightarrow> Inr (Some r))"
proof (induction items arbitrary: m mv)
  case Nil
  show ?case by simp
next
  case (Cons item items)
  obtain a c where item: "item = (a, c)" by (cases item)
  show ?case
    by (cases "ucb_v (cells h c) (cells h n) identity") (simp_all add: item Cons.IH)
qed

text \<open>
  On a non-empty dictionary the loop of \<^verbatim>\<open>mcts_vanilla.py\<close> finds the child that
  \<^verbatim>\<open>max\<close> with the UCB score as key finds.
\<close>

lemma best_child_loop_v_py_max:
  assumes "items \<noteq> []"
  shows "best_child_loop_v h n identity items None NInf =
           (case py_max (\<lambda>child. ucb_v (cells h child) (cells h n) identity) (map snd items) of
              Inl e \<Rightarrow> Inl e
            | Inr r \<Rightarrow> Inr (Some r))"
proof -
  from assms obtain a c rest where items: "items = (a, c) # rest"
    by (cases items) auto
  show ?thesis
  proof (cases "ucb_v (cells h c) (cells h n) identity")
    case (Inl e)
    then show ?thesis by (simp add: items py_max_def)
  next
    case (Inr u)
    then have "u \<noteq> NInf" using ucb_v_not_NInf [of "cells h c" "cells h n" identity] by auto
    then have "NInf < u"
      by (cases u) (simp_all add: less_pyfloat_def less_eq_pyfloat_def)
    then show ?thesis
      using Inr by (simp add: items py_max_def best_child_loop_v_max_loop)
  qed
qed

lemma ucb_v_defined:
  assumes "0 < visits nd \<longrightarrow> 0 < visits par"
  shows "\<exists>u. ucb_v nd par identity = Inr u \<and> (u = PInf \<longleftrightarrow> visits nd = 0)"
proof (cases "visits nd = 0")
  case True
  then show ?thesis by (simp add: ucb_v_unvisited)
next
  case False
  then have "0 < visits nd" "0 < visits par" using assms by simp_all
  then show ?thesis by (simp add: ucb_v_visited)
qed

lemma ucb_m_defined:
  assumes "0 < visits nd \<longrightarrow> 0 < visits par"
  shows "\<exists>u. ucb_m nd par identity = Inr u \<and> (u = PInf \<longleftrightarrow> visits nd = 0)"
proof (cases "visits nd = 0")
  case True
  then show ?thesis by (simp add: ucb_m_unvisited)
next
  case False
  then have "0 < visits nd" "0 < visits par" using assms by simp_all
  then show ?thesis by (simp add: ucb_m_visited)
qed

lemma PInf_greatest: "x \<le> PInf"
  by (cases x) (simp_all add: less_eq_pyfloat_def)

lemma PInf_le_iff: "PInf \<le> x \<longleftrightarrow> x = PInf"
  by (cases x) (simp_all add: less_eq_pyfloat_def)

text \<open>
  The child that selection moves to: for a score function that is defined on every child,
  \<^verbatim>\<open>max\<close> returns a child of greatest score, and an unvisited one when there is any.
\<close>

lemma py_max_children:
  assumes ne: "child_nodes (cells h n) \<noteq> []"
    and sc: "\<forall>(a, c) \<in> set (child_nodes (cells h n)).
               \<exists>u. score c = Inr u \<and> (u = PInf \<longleftrightarrow> visits (cells h c) = 0)"
  shows "\<exists>best a u. py_max score (map snd (child_nodes (cells h n))) = Inr best
           \<and> (a, best) \<in> set (child_nodes (cells h n))
           \<and> score best = Inr u
           \<and> (\<forall>(a', c') \<in> set (child_nodes (cells h n)). \<exists>u'. score c' = Inr u' \<and> u' \<le> u)
           \<and> ((\<exists>(a', c') \<in> set (child_nodes (cells h n)). visits (cells h c') = 0)
                \<longrightarrow> visits (cells h best) = 0)"
proof -
  let ?xs = "map snd (child_nodes (cells h n))"
  let ?f = "\<lambda>c. projr (score c)"
  have key: "\<forall>c \<in> set ?xs. score c = Inr (?f c)"
    using sc by fastforce
  have "?xs \<noteq> []" using ne by simp
  from py_max_greatest [OF this key] obtain best where
    b: "py_max score ?xs = Inr best" "best \<in> set ?xs" "\<forall>c \<in> set ?xs. ?f c \<le> ?f best"
    by blast
  from b(2) obtain a where a: "(a, best) \<in> set (child_nodes (cells h n))" by auto
  have sb: "score best = Inr (?f best)" using key b(2) by blast
  have all: "\<forall>(a', c') \<in> set (child_nodes (cells h n)). \<exists>u'. score c' = Inr u' \<and> u' \<le> ?f best"
  proof (clarify)
    fix a' c' assume "(a', c') \<in> set (child_nodes (cells h n))"
    then have "c' \<in> set ?xs" by force
    then show "\<exists>u'. score c' = Inr u' \<and> u' \<le> ?f best" using key b(3) by blast
  qed
  have unv: "(\<exists>(a', c') \<in> set (child_nodes (cells h n)). visits (cells h c') = 0)
               \<longrightarrow> visits (cells h best) = 0"
  proof
    assume "\<exists>(a', c') \<in> set (child_nodes (cells h n)). visits (cells h c') = 0"
    then obtain a' c' where m: "(a', c') \<in> set (child_nodes (cells h n))"
      and z: "visits (cells h c') = 0" by auto
    from sc m z have "score c' = Inr PInf" by fastforce
    moreover from all m obtain u' where "score c' = Inr u'" "u' \<le> ?f best" by fastforce
    ultimately have "?f best = PInf" by (simp add: PInf_le_iff)
    moreover from sc a obtain u where "score best = Inr u"
      "u = PInf \<longleftrightarrow> visits (cells h best) = 0" by fastforce
    ultimately show "visits (cells h best) = 0" by simp
  qed
  show ?thesis using b(1) a sb all unv by blast
qed

lemma traverse_nodes_v_move:
  assumes "\<not> is_ended b s" and "untried_actions (cells h n) = []"
    and "best_child_loop_v h n identity (child_nodes (cells h n)) None NInf = Inr (Some best)"
  shows "traverse_nodes_v b h n s identity =
           (case parent_action (cells h best) of
              None \<Rightarrow> Some (Inl TypeError)
            | Some pa \<Rightarrow> traverse_nodes_v b h best (next_state b s pa) identity)"
  using assms by (subst traverse_nodes_v.simps) simp

lemma traverse_nodes_m_move:
  assumes "\<not> is_ended b s" and "untried_actions (cells h n) = []"
    and "py_max (\<lambda>child. ucb_m (cells h child) (cells h n) identity)
           (map snd (child_nodes (cells h n))) = Inr best"
  shows "traverse_nodes_m b h n s identity =
           (case parent_action (cells h best) of
              None \<Rightarrow> Some (Inl TypeError)
            | Some pa \<Rightarrow> traverse_nodes_m b h best (next_state b s pa) identity)"
  using assms by (subst traverse_nodes_m.simps) simp

lemma select_v:
  assumes ne: "child_nodes (cells h n) \<noteq> []"
    and vis: "\<forall>(a, c) \<in> set (child_nodes (cells h n)).
               0 < visits (cells h c) \<longrightarrow> 0 < visits (cells h n)"
  shows "\<exists>best a u.
           best_child_loop_v h n identity (child_nodes (cells h n)) None NInf = Inr (Some best)
           \<and> (a, best) \<in> set (child_nodes (cells h n))
           \<and> ucb_v (cells h best) (cells h n) identity = Inr u
           \<and> (\<forall>(a', c') \<in> set (child_nodes (cells h n)).
                 \<exists>u'. ucb_v (cells h c') (cells h n) identity = Inr u' \<and> u' \<le> u)
           \<and> ((\<exists>(a', c') \<in> set (child_nodes (cells h n)). visits (cells h c') = 0)
                \<longrightarrow> visits (cells h best) = 0)"
proof -
  have "\<forall>(a, c) \<in> set (child_nodes (cells h n)).
          \<exists>u. ucb_v (cells h c) (cells h n) identity = Inr u
              \<and> (u = PInf \<longleftrightarrow> visits (cells h c) = 0)"
  proof (clarify)
    fix a c assume "(a, c) \<in> set (child_nodes (cells h n))"
    then have "0 < visits (cells h c) \<longrightarrow> 0 < visits (cells h n)" using vis by auto
    then show "\<exists>u. ucb_v (cells h c) (cells h n) identity = Inr u
              \<and> (u = PInf \<longleftrightarrow> visits (cells h c) = 0)"
      by (rule ucb_v_defined)
  qed
  from py_max_children [OF ne, of "\<lambda>c. ucb_v (cells h c) (cells h n) identity", OF this]
  obtain best a u where
    p: "py_max (\<lambda>c. ucb_v (cells h c) (cells h n) identity)
          (map snd (child_nodes (cells h n))) = Inr best"
    and r: "(a, best) \<in> set (child_nodes (cells h n))"
      "ucb_v (cells h best) (cells h n) identity = Inr u"
      "\<forall>(a', c') \<in> set (child_nodes (cells h n)).
          \<exists>u'. ucb_v (cells h c') (cells h n) identity = Inr u' \<and> u' \<le> u"
      "(\<exists>(a', c') \<in> set (child_nodes (cells h n)). visits (cells h c') = 0)
          \<longrightarrow> visits (cells h best) = 0"
    by blast
  have "best_child_loop_v h n identity (child_nodes (cells h n)) None NInf = Inr (Some best)"
    by (simp add: best_child_loop_v_py_max [OF ne] p)
  with r show ?thesis by blast
qed

lemma select_m:
  assumes ne: "child_nodes (cells h n) \<noteq> []"
    and vis: "\<forall>(a, c) \<in> set (child_nodes (cells h n)).
               0 < visits (cells h c) \<longrightarrow> 0 < visits (cells h n)"
  shows "\<exists>best a u.
           py_max (\<lambda>child. ucb_m (cells h child) (cells h n) identity)
             (map snd (child_nodes (cells h n))) = Inr best
           \<and> (a, best) \<in> set (child_nodes (cells h n))
           \<and> ucb_m (cells h best) (cells h n) identity = Inr u
           \<and> (\<forall>(a', c') \<in> set (child_nodes (cells h n)).
                 \<exists>u'. ucb_m (cells h c') (cells h n) identity = Inr u' \<and> u' \<le> u)
           \<and> ((\<exists>(a', c') \<in> set (child_nodes (cells h n)). visits (cells h c') = 0)
                \<longrightarrow> visits (cells h best) = 0)"
proof -
  have "\<forall>(a, c) \<in> set (child_nodes (cells h n)).
          \<exists>u. ucb_m (cells h c) (cells h n) identity = Inr u
              \<and> (u = PInf \<longleftrightarrow> visits (cells h c) = 0)"
  proof (clarify)
    fix a c assume "(a, c) \<in> set (child_nodes (cells h n))"
    then have "0 < visits (cells h c) \<longrightarrow> 0 < visits (cells h n)" using vis by auto
    then show "\<exists>u. ucb_m (cells h c) (cells h n) identity = Inr u
              \<and> (u = PInf \<longleftrightarrow> visits (cells h c) = 0)"
      by (rule ucb_m_defined)
  qed
  from py_max_children [OF ne, of "\<lambda>c. ucb_m (cells h c) (cells h n) identity", OF this]
  show ?thesis by blast
qed

text \<open>
  C4. For a node with \<open>visits = 0\<close>, \<^verbatim>\<open>ucb\<close> of either module returns positive infinity.
  When a visited node has an unvisited child, the child that selection finds at that
  node is an unvisited one, whatever the wins and visits of its siblings, and
  \<^verbatim>\<open>traverse_nodes\<close> continues from that child.
\<close>

theorem unvisited_child_selected:
  assumes "(a, c) \<in> set (child_nodes (cells h n))" and "visits (cells h c) = 0"
    and "0 < visits (cells h n)"
  shows "ucb_v (cells h c) (cells h n) idv = Inr PInf
         \<and> ucb_m (cells h c) (cells h n) idm = Inr PInf
         \<and> (\<exists>best. best_child_loop_v h n idv (child_nodes (cells h n)) None NInf
                      = Inr (Some best)
                \<and> best \<in> snd ` set (child_nodes (cells h n))
                \<and> visits (cells h best) = 0
                \<and> (\<not> is_ended b s \<and> untried_actions (cells h n) = [] \<longrightarrow>
                     traverse_nodes_v b h n s idv =
                       (case parent_action (cells h best) of
                          None \<Rightarrow> Some (Inl TypeError)
                        | Some pa \<Rightarrow> traverse_nodes_v b h best (next_state b s pa) idv)))
         \<and> (\<exists>best. py_max (\<lambda>child. ucb_m (cells h child) (cells h n) idm)
                      (map snd (child_nodes (cells h n))) = Inr best
                \<and> best \<in> snd ` set (child_nodes (cells h n))
                \<and> visits (cells h best) = 0
                \<and> (\<not> is_ended b s \<and> untried_actions (cells h n) = [] \<longrightarrow>
                     traverse_nodes_m b h n s idm =
                       (case parent_action (cells h best) of
                          None \<Rightarrow> Some (Inl TypeError)
                        | Some pa \<Rightarrow> traverse_nodes_m b h best (next_state b s pa) idm)))"
proof -
  have ne: "child_nodes (cells h n) \<noteq> []" using assms(1) by auto
  have vis: "\<forall>(a, c) \<in> set (child_nodes (cells h n)).
               0 < visits (cells h c) \<longrightarrow> 0 < visits (cells h n)"
    using assms(3) by simp
  have unv: "\<exists>(a', c') \<in> set (child_nodes (cells h n)). visits (cells h c') = 0"
    using assms(1,2) by blast
  from select_v [OF ne vis, of idv] unv obtain bv av where
    v: "best_child_loop_v h n idv (child_nodes (cells h n)) None NInf = Inr (Some bv)"
       "(av, bv) \<in> set (child_nodes (cells h n))" "visits (cells h bv) = 0"
    by blast
  from select_m [OF ne vis, of idm] unv obtain bm am where
    m: "py_max (\<lambda>child. ucb_m (cells h child) (cells h n) idm)
          (map snd (child_nodes (cells h n))) = Inr bm"
       "(am, bm) \<in> set (child_nodes (cells h n))" "visits (cells h bm) = 0"
    by blast
  have "bv \<in> snd ` set (child_nodes (cells h n))" using v(2) by force
  moreover have "bm \<in> snd ` set (child_nodes (cells h n))" using m(2) by force
  ultimately show ?thesis
    using assms(2) v(1,3) m(1,3) traverse_nodes_v_move [of b s h n idv bv]
      traverse_nodes_m_move [of b s h n idm bm]
    by (simp add: ucb_v_unvisited ucb_m_unvisited)
qed

theorem unvisited_child_selected_witness:
  "(2, 2) \<in> set (child_nodes (cells demo_fresh_heap 0))
   \<and> visits (cells demo_fresh_heap 2) = 0
   \<and> 0 < visits (cells demo_fresh_heap 0)
   \<and> 0 < visits (cells demo_fresh_heap 1)
   \<and> best_child_loop_v demo_fresh_heap 0 1 (child_nodes (cells demo_fresh_heap 0)) None NInf
       = Inr (Some 2)
   \<and> py_max (\<lambda>child. ucb_m (cells demo_fresh_heap child) (cells demo_fresh_heap 0) 1)
       (map snd (child_nodes (cells demo_fresh_heap 0))) = Inr 2"
proof -
  have c: "child_nodes (cells demo_fresh_heap 0) = [(1, 1), (2, 2)]"
    and v2: "visits (cells demo_fresh_heap 2) = 0"
    and v0: "0 < visits (cells demo_fresh_heap 0)"
    and v1: "0 < visits (cells demo_fresh_heap 1)"
    by (simp_all add: demo_fresh_heap_def MCTSNode_def)
  have mem: "(2, 2) \<in> set (child_nodes (cells demo_fresh_heap 0))"
    by (simp add: c)
  note t = unvisited_child_selected [OF mem v2 v0,
      where idv = 1 and idm = 1 and b = "demo_board (1::int)" and s = 0]
  from t [THEN conjunct2, THEN conjunct2, THEN conjunct1]
  obtain bv where
    bv: "best_child_loop_v demo_fresh_heap 0 1 (child_nodes (cells demo_fresh_heap 0)) None NInf
           = Inr (Some bv)"
      "bv \<in> snd ` set (child_nodes (cells demo_fresh_heap 0))"
      "visits (cells demo_fresh_heap bv) = 0"
    by blast
  from t [THEN conjunct2, THEN conjunct2, THEN conjunct2]
  obtain bm where
    bm: "py_max (\<lambda>child. ucb_m (cells demo_fresh_heap child) (cells demo_fresh_heap 0) 1)
           (map snd (child_nodes (cells demo_fresh_heap 0))) = Inr bm"
      "bm \<in> snd ` set (child_nodes (cells demo_fresh_heap 0))"
      "visits (cells demo_fresh_heap bm) = 0"
    by blast
  have "bv = 1 \<or> bv = 2" "bm = 1 \<or> bm = 2"
    using bv(2) bm(2) by (auto simp: c)
  then have "bv = 2" "bm = 2"
    using bv(3) bm(3) v1 by auto
  with bv(1) bm(1) have
    "best_child_loop_v demo_fresh_heap 0 1 (child_nodes (cells demo_fresh_heap 0)) None NInf
       = Inr (Some 2)"
    "py_max (\<lambda>child. ucb_m (cells demo_fresh_heap child) (cells demo_fresh_heap 0) 1)
       (map snd (child_nodes (cells demo_fresh_heap 0))) = Inr 2"
    by simp_all
  then show ?thesis using mem v2 v0 v1 by simp
qed

section \<open>The search tree\<close>

lemma links_okD:
  assumes "links_ok b h g" and "n < next_free h" and "(a, c) \<in> set (child_nodes (cells h n))"
  shows "n < c \<and> c < next_free h \<and> parent (cells h c) = Some n
         \<and> parent_action (cells h c) = Some a \<and> g c = next_state b (g n) a"
proof -
  from assms(1,2) have "\<forall>(a, c) \<in> set (child_nodes (cells h n)).
        n < c \<and> c < next_free h \<and> parent (cells h c) = Some n
        \<and> parent_action (cells h c) = Some a \<and> g c = next_state b (g n) a"
    unfolding links_ok_def by simp
  from bspec [OF this assms(3)] show ?thesis by simp
qed

lemma live_okD:
  assumes "live_ok b h g" and "n < next_free h"
  shows "\<not> is_ended b (g n) \<Longrightarrow> untried_actions (cells h n) = [] \<Longrightarrow>
           child_nodes (cells h n) \<noteq> []"
    and "\<forall>(a, c) \<in> set (child_nodes (cells h n)).
           0 < visits (cells h c) \<longrightarrow> 0 < visits (cells h n)"
  using assms unfolding live_ok_def by simp_all

lemma traverse_nodes_v_total:
  assumes l: "links_ok b h g" and v: "live_ok b h g" and "n < next_free h"
  shows "\<exists>n'. traverse_nodes_v b h n (g n) identity = Some (Inr (n', g n'))
           \<and> n' < next_free h
           \<and> (is_ended b (g n') \<or> untried_actions (cells h n') \<noteq> [])
           \<and> ucb_descent (\<lambda>c p. ucb_v (cells h c) (cells h p) identity) b h (n, g n) (n', g n')"
  using assms(3)
proof (induction "next_free h - n" arbitrary: n rule: less_induct)
  case less
  show ?case
  proof (cases "is_ended b (g n) \<or> untried_actions (cells h n) \<noteq> []")
    case True
    then have "traverse_nodes_v b h n (g n) identity = Some (Inr (n, g n))"
      by (rule traverse_nodes_v_stop)
    then show ?thesis
      using True less.prems by (intro exI [of _ n]) (simp add: ucb_descent.descent_stop)
  next
    case False
    then have ne: "\<not> is_ended b (g n)" and un: "untried_actions (cells h n) = []" by simp_all
    have cn: "child_nodes (cells h n) \<noteq> []"
      using v less.prems ne un by (rule live_okD(1))
    have vis: "\<forall>(a, c) \<in> set (child_nodes (cells h n)).
                 0 < visits (cells h c) \<longrightarrow> 0 < visits (cells h n)"
      using v less.prems by (rule live_okD(2))
    from select_v [OF cn vis, of identity] obtain best a u where
      sel: "best_child_loop_v h n identity (child_nodes (cells h n)) None NInf = Inr (Some best)"
      and mem: "(a, best) \<in> set (child_nodes (cells h n))"
      and sb: "ucb_v (cells h best) (cells h n) identity = Inr u"
      and mx: "\<forall>(a', c') \<in> set (child_nodes (cells h n)).
                 \<exists>u'. ucb_v (cells h c') (cells h n) identity = Inr u' \<and> u' \<le> u"
      by blast
    have lk: "n < best \<and> best < next_free h \<and> parent_action (cells h best) = Some a
              \<and> g best = next_state b (g n) a"
      using links_okD [OF l less.prems mem] by simp
    have step: "traverse_nodes_v b h n (g n) identity =
                traverse_nodes_v b h best (g best) identity"
      using traverse_nodes_v_move [OF ne un sel] lk by simp
    have "next_free h - best < next_free h - n" using lk by linarith
    from less.hyps [OF this] lk obtain n' where
      r: "traverse_nodes_v b h best (g best) identity = Some (Inr (n', g n'))"
         "n' < next_free h" "is_ended b (g n') \<or> untried_actions (cells h n') \<noteq> []"
         "ucb_descent (\<lambda>c p. ucb_v (cells h c) (cells h p) identity) b h (best, g best) (n', g n')"
      by blast
    have pa: "parent_action (cells h best) = Some a" using lk by simp
    have r4: "ucb_descent (\<lambda>c p. ucb_v (cells h c) (cells h p) identity) b h
                (best, next_state b (g n) a) (n', g n')"
      using r(4) lk by simp
    have "ucb_descent (\<lambda>c p. ucb_v (cells h c) (cells h p) identity) b h (n, g n) (n', g n')"
      by (rule ucb_descent.descent_move
            [where score = "\<lambda>c p. ucb_v (cells h c) (cells h p) identity",
              OF ne un mem sb mx pa r4])
    then show ?thesis using step r by (intro exI [of _ n']) simp
  qed
qed

lemma traverse_nodes_m_total:
  assumes l: "links_ok b h g" and v: "live_ok b h g" and "n < next_free h"
  shows "\<exists>n'. traverse_nodes_m b h n (g n) identity = Some (Inr (n', g n'))
           \<and> n' < next_free h
           \<and> (is_ended b (g n') \<or> untried_actions (cells h n') \<noteq> [])
           \<and> ucb_descent (\<lambda>c p. ucb_m (cells h c) (cells h p) identity) b h (n, g n) (n', g n')"
  using assms(3)
proof (induction "next_free h - n" arbitrary: n rule: less_induct)
  case less
  show ?case
  proof (cases "is_ended b (g n) \<or> untried_actions (cells h n) \<noteq> []")
    case True
    then have "traverse_nodes_m b h n (g n) identity = Some (Inr (n, g n))"
      by (rule traverse_nodes_m_stop)
    then show ?thesis
      using True less.prems by (intro exI [of _ n]) (simp add: ucb_descent.descent_stop)
  next
    case False
    then have ne: "\<not> is_ended b (g n)" and un: "untried_actions (cells h n) = []" by simp_all
    have cn: "child_nodes (cells h n) \<noteq> []"
      using v less.prems ne un by (rule live_okD(1))
    have vis: "\<forall>(a, c) \<in> set (child_nodes (cells h n)).
                 0 < visits (cells h c) \<longrightarrow> 0 < visits (cells h n)"
      using v less.prems by (rule live_okD(2))
    from select_m [OF cn vis, of identity] obtain best a u where
      sel: "py_max (\<lambda>child. ucb_m (cells h child) (cells h n) identity)
              (map snd (child_nodes (cells h n))) = Inr best"
      and mem: "(a, best) \<in> set (child_nodes (cells h n))"
      and sb: "ucb_m (cells h best) (cells h n) identity = Inr u"
      and mx: "\<forall>(a', c') \<in> set (child_nodes (cells h n)).
                 \<exists>u'. ucb_m (cells h c') (cells h n) identity = Inr u' \<and> u' \<le> u"
      by blast
    have lk: "n < best \<and> best < next_free h \<and> parent_action (cells h best) = Some a
              \<and> g best = next_state b (g n) a"
      using links_okD [OF l less.prems mem] by simp
    have step: "traverse_nodes_m b h n (g n) identity =
                traverse_nodes_m b h best (g best) identity"
      using traverse_nodes_m_move [OF ne un sel] lk by simp
    have "next_free h - best < next_free h - n" using lk by linarith
    from less.hyps [OF this] lk obtain n' where
      r: "traverse_nodes_m b h best (g best) identity = Some (Inr (n', g n'))"
         "n' < next_free h" "is_ended b (g n') \<or> untried_actions (cells h n') \<noteq> []"
         "ucb_descent (\<lambda>c p. ucb_m (cells h c) (cells h p) identity) b h (best, g best) (n', g n')"
      by blast
    have pa: "parent_action (cells h best) = Some a" using lk by simp
    have r4: "ucb_descent (\<lambda>c p. ucb_m (cells h c) (cells h p) identity) b h
                (best, next_state b (g n) a) (n', g n')"
      using r(4) lk by simp
    have "ucb_descent (\<lambda>c p. ucb_m (cells h c) (cells h p) identity) b h (n, g n) (n', g n')"
      by (rule ucb_descent.descent_move
            [where score = "\<lambda>c p. ucb_m (cells h c) (cells h p) identity",
              OF ne un mem sb mx pa r4])
    then show ?thesis using step r by (intro exI [of _ n']) simp
  qed
qed

text \<open>
  C5. In a well-formed tree, \<^verbatim>\<open>traverse_nodes\<close> of either module, started at a node with
  the state that belongs to it, returns a node with the state that belongs to that node;
  at the returned pair the game has ended or the node has an untried action; and the
  returned pair is reached from the start by the descent that always moves to a child of
  greatest UCB score and advances the state by that child's parent action.
\<close>

theorem traverse_nodes_selects:
  assumes "tree_ok b h g" and "n < next_free h"
  shows "(\<exists>n'. traverse_nodes_v b h n (g n) idv = Some (Inr (n', g n'))
            \<and> n' < next_free h
            \<and> (is_ended b (g n') \<or> untried_actions (cells h n') \<noteq> [])
            \<and> ucb_descent (\<lambda>c p. ucb_v (cells h c) (cells h p) idv) b h (n, g n) (n', g n'))
         \<and> (\<exists>n'. traverse_nodes_m b h n (g n) idm = Some (Inr (n', g n'))
            \<and> n' < next_free h
            \<and> (is_ended b (g n') \<or> untried_actions (cells h n') \<noteq> [])
            \<and> ucb_descent (\<lambda>c p. ucb_m (cells h c) (cells h p) idm) b h (n, g n) (n', g n'))"
  using assms traverse_nodes_v_total [of b h g n idv] traverse_nodes_m_total [of b h g n idm]
  unfolding tree_ok_def by simp

lemma demo_heap_addresses: "n < next_free demo_heap \<Longrightarrow> n = 0 \<or> n = 1 \<or> n = 2 \<or> n = 3"
  by (auto simp: demo_heap_def)

lemma demo_heap_links: "links_ok (demo_board p) demo_heap (\<lambda>n. n)"
  unfolding links_ok_def
proof (intro allI impI)
  fix n assume "n < next_free demo_heap"
  then have "n = 0 \<or> n = 1 \<or> n = 2 \<or> n = 3" by (rule demo_heap_addresses)
  then show "\<forall>(a, c) \<in> set (child_nodes (cells demo_heap n)).
        n < c \<and> c < next_free demo_heap \<and> parent (cells demo_heap c) = Some n
        \<and> parent_action (cells demo_heap c) = Some a
        \<and> c = next_state (demo_board p) n a"
    by (auto simp: demo_heap_def MCTSNode_def demo_board_def)
qed

lemma demo_heap_live: "live_ok (demo_board p) demo_heap (\<lambda>n. n)"
  unfolding live_ok_def
proof (intro allI impI)
  fix n assume "n < next_free demo_heap"
  then have "n = 0 \<or> n = 1 \<or> n = 2 \<or> n = 3" by (rule demo_heap_addresses)
  then show "(\<not> is_ended (demo_board p) n \<and> untried_actions (cells demo_heap n) = []
           \<longrightarrow> child_nodes (cells demo_heap n) \<noteq> [])
        \<and> (\<forall>(a, c) \<in> set (child_nodes (cells demo_heap n)).
              0 < visits (cells demo_heap c) \<longrightarrow> 0 < visits (cells demo_heap n))"
    by (auto simp: demo_heap_def MCTSNode_def demo_board_def)
qed

theorem traverse_nodes_selects_witness:
  "tree_ok (demo_board (1::int)) demo_heap (\<lambda>n. n) \<and> 0 < next_free demo_heap
   \<and> \<not> is_ended (demo_board (1::int)) 0 \<and> untried_actions (cells demo_heap 0) = []
   \<and> (\<exists>n'. traverse_nodes_v (demo_board (1::int)) demo_heap 0 0 1 = Some (Inr (n', n'))
          \<and> n' < next_free demo_heap
          \<and> (is_ended (demo_board (1::int)) n' \<or> untried_actions (cells demo_heap n') \<noteq> [])
          \<and> ucb_descent (\<lambda>c p. ucb_v (cells demo_heap c) (cells demo_heap p) 1)
               (demo_board (1::int)) demo_heap (0, 0) (n', n'))
   \<and> (\<exists>n'. traverse_nodes_m (demo_board (1::int)) demo_heap 0 0 1 = Some (Inr (n', n'))
          \<and> n' < next_free demo_heap
          \<and> (is_ended (demo_board (1::int)) n' \<or> untried_actions (cells demo_heap n') \<noteq> [])
          \<and> ucb_descent (\<lambda>c p. ucb_m (cells demo_heap c) (cells demo_heap p) 1)
               (demo_board (1::int)) demo_heap (0, 0) (n', n'))"
proof -
  have t: "tree_ok (demo_board (1::int)) demo_heap (\<lambda>n. n)"
    unfolding tree_ok_def by (simp add: demo_heap_links demo_heap_live)
  have n: "0 < next_free demo_heap" by (simp add: demo_heap_def)
  have s: "\<not> is_ended (demo_board (1::int)) 0" "untried_actions (cells demo_heap 0) = []"
    by (simp_all add: demo_board_def demo_heap_def MCTSNode_def)
  from traverse_nodes_selects [OF t n, of 1 1] show ?thesis
    using t n s by simp
qed

section \<open>The search keeps the tree well formed\<close>

lemma actions_okD:
  assumes "actions_ok b h g" and "n < next_free h"
  shows "distinct (map fst (child_nodes (cells h n)) @ untried_actions (cells h n))"
    and "set (map fst (child_nodes (cells h n))) \<union> set (untried_actions (cells h n))
            = set (legal_actions b (g n))"
  using assms unfolding actions_ok_def by simp_all

lemma set_update_cases:
  "(k', v') \<in> set (AList.update k v al) \<Longrightarrow> (k', v') = (k, v) \<or> (k', v') \<in> set al"
  by (induction al) (auto split: if_splits)

text \<open>The store after an expansion that took place.\<close>

lemma expand_leaf_fields:
  assumes "\<not> is_ended b s" and "untried_actions (cells h n) \<noteq> []" and "n < next_free h"
    and "expand_leaf b h rs n s = Inr (h', c, s', rs')"
  shows "\<exists>action. action \<in> set (untried_actions (cells h n))
           \<and> c = next_free h \<and> s' = next_state b s action
           \<and> next_free h' = Suc (next_free h)
           \<and> cells h' c = MCTSNode (Some n) (Some action) (legal_actions b s')
           \<and> child_nodes (cells h' n) = AList.update action c (child_nodes (cells h n))
           \<and> untried_actions (cells h' n) = remove1 action (untried_actions (cells h n))
           \<and> parent (cells h' n) = parent (cells h n)
           \<and> parent_action (cells h' n) = parent_action (cells h n)
           \<and> visits (cells h' n) = visits (cells h n)
           \<and> (\<forall>j. j \<noteq> n \<and> j \<noteq> c \<longrightarrow> cells h' j = cells h j)"
proof -
  from choice_member [OF assms(2), of rs] obtain action where
    mem: "action \<in> set (untried_actions (cells h n))"
    and ch: "choice rs (untried_actions (cells h n)) = Inr (action, stl rs)"
    by blast
  from expand_leaf_step [OF assms(1,2) ch assms(3)] obtain k where
    k: "expand_leaf b h rs n s = Inr (k, next_free h, next_state b s action, stl rs)"
       "next_free k = Suc (next_free h)"
       "cells k (next_free h) =
          MCTSNode (Some n) (Some action) (legal_actions b (next_state b s action))"
       "cells k n = (cells h n)
          \<lparr>child_nodes := AList.update action (next_free h) (child_nodes (cells h n)),
           untried_actions := remove1 action (untried_actions (cells h n))\<rparr>"
       "\<forall>j. j \<noteq> n \<and> j \<noteq> next_free h \<longrightarrow> cells k j = cells h j"
    by blast
  from k(1) assms(4) have eq: "h' = k" "c = next_free h" "s' = next_state b s action"
    by simp_all
  show ?thesis
    using mem k(2,3,5) unfolding eq by (intro exI [of _ action]) (simp add: k(4))
qed

lemma links_ok_expand:
  assumes l: "links_ok b h g" and "\<not> is_ended b (g n)" and "untried_actions (cells h n) \<noteq> []"
    and n: "n < next_free h" and "expand_leaf b h rs n (g n) = Inr (h', c, s', rs')"
  shows "links_ok b h' (g(c := s'))"
proof -
  from expand_leaf_fields [OF assms(2,3,4,5)] obtain action where
    f: "c = next_free h" "s' = next_state b (g n) action" "next_free h' = Suc (next_free h)"
       "cells h' c = MCTSNode (Some n) (Some action) (legal_actions b s')"
       "child_nodes (cells h' n) = AList.update action c (child_nodes (cells h n))"
       "parent (cells h' n) = parent (cells h n)"
       "parent_action (cells h' n) = parent_action (cells h n)"
       "\<forall>j. j \<noteq> n \<and> j \<noteq> c \<longrightarrow> cells h' j = cells h j"
    by blast
  have nc: "n \<noteq> c" using n f(1) by simp
  have par: "\<And>x. x \<noteq> c \<Longrightarrow> parent (cells h' x) = parent (cells h x)
               \<and> parent_action (cells h' x) = parent_action (cells h x)"
    using f(6,7,8) by (metis)
  show ?thesis
    unfolding links_ok_def
  proof (intro allI impI, clarify)
    fix m a' c'
    assume m: "m < next_free h'" and mem: "(a', c') \<in> set (child_nodes (cells h' m))"
    have mc: "m \<noteq> c" using mem f(4) by (auto simp: MCTSNode_def)
    then have mlt: "m < next_free h" using m f(1,3) by simp
    show "m < c' \<and> c' < next_free h' \<and> parent (cells h' c') = Some m
          \<and> parent_action (cells h' c') = Some a'
          \<and> (g(c := s')) c' = next_state b ((g(c := s')) m) a'"
    proof (cases "m = n \<and> (a', c') = (action, c)")
      case True
      then show ?thesis
        using n f(1,2,3,4) nc by (simp add: MCTSNode_def)
    next
      case False
      have old: "(a', c') \<in> set (child_nodes (cells h m))"
      proof (cases "m = n")
        case True
        then show ?thesis using mem False f(5) set_update_cases by fastforce
      next
        case False
        then show ?thesis using mem mc f(8) by simp
      qed
      from links_okD [OF l mlt old] have
        o: "m < c'" "c' < next_free h" "parent (cells h c') = Some m"
           "parent_action (cells h c') = Some a'" "g c' = next_state b (g m) a'"
        by simp_all
      have cc: "c' \<noteq> c" using o(2) f(1) by simp
      show ?thesis
        using o cc mc f(3) par [OF cc] by simp
    qed
  qed
qed

lemma live_ok_expand:
  assumes l: "links_ok b h g" and v: "live_ok b h g" and bo: "board_ok b"
    and "\<not> is_ended b (g n)" and "untried_actions (cells h n) \<noteq> []"
    and n: "n < next_free h" and "expand_leaf b h rs n (g n) = Inr (h', c, s', rs')"
  shows "live_ok b h' (g(c := s'))"
proof -
  from expand_leaf_fields [OF assms(4,5,6,7)] obtain action where
    f: "c = next_free h" "next_free h' = Suc (next_free h)"
       "cells h' c = MCTSNode (Some n) (Some action) (legal_actions b s')"
       "child_nodes (cells h' n) = AList.update action c (child_nodes (cells h n))"
       "visits (cells h' n) = visits (cells h n)"
       "\<forall>j. j \<noteq> n \<and> j \<noteq> c \<longrightarrow> cells h' j = cells h j"
    by blast
  have nc: "n \<noteq> c" using n f(1) by simp
  have vis: "\<And>x. x \<noteq> c \<Longrightarrow> visits (cells h' x) = visits (cells h x)"
    using f(5,6) by metis
  show ?thesis
    unfolding live_ok_def
  proof (intro allI impI conjI)
    fix m
    assume m: "m < next_free h'"
      and e: "\<not> is_ended b ((g(c := s')) m) \<and> untried_actions (cells h' m) = []"
    show "child_nodes (cells h' m) \<noteq> []"
    proof (cases "m = c")
      case True
      then have "legal_actions b s' = []" "\<not> is_ended b s'"
        using e f(3) by (simp_all add: MCTSNode_def)
      then show ?thesis using bo unfolding board_ok_def by blast
    next
      case False
      then have mlt: "m < next_free h" using m f(1,2) by simp
      show ?thesis
      proof (cases "m = n")
        case True
        then show ?thesis using f(4) by (simp add: update_nonempty)
      next
        case False
        then have "cells h' m = cells h m" using \<open>m \<noteq> c\<close> f(6) by simp
        then show ?thesis using live_okD(1) [OF v mlt] e \<open>m \<noteq> c\<close> by simp
      qed
    qed
  next
    fix m
    assume m: "m < next_free h'"
    show "\<forall>(a', c') \<in> set (child_nodes (cells h' m)).
            0 < visits (cells h' c') \<longrightarrow> 0 < visits (cells h' m)"
    proof (clarify)
      fix a' c'
      assume mem: "(a', c') \<in> set (child_nodes (cells h' m))"
        and pos: "0 < visits (cells h' c')"
      have mc: "m \<noteq> c" using mem f(3) by (auto simp: MCTSNode_def)
      then have mlt: "m < next_free h" using m f(1,2) by simp
      have cc: "c' \<noteq> c" using pos f(3) by (auto simp: MCTSNode_def)
      have old: "(a', c') \<in> set (child_nodes (cells h m))"
      proof (cases "m = n")
        case True
        then show ?thesis using mem cc f(4) set_update_cases by fastforce
      next
        case False
        then show ?thesis using mem mc f(6) by simp
      qed
      from live_okD(2) [OF v mlt] old pos have "0 < visits (cells h m)"
        using vis [OF cc] by auto
      then show "0 < visits (cells h' m)" using vis [OF mc] by simp
    qed
  qed
qed

lemma actions_ok_expand:
  assumes ao: "actions_ok b h g" and db: "distinct_board b"
    and "\<not> is_ended b (g n)" and "untried_actions (cells h n) \<noteq> []"
    and n: "n < next_free h" and "expand_leaf b h rs n (g n) = Inr (h', c, s', rs')"
  shows "actions_ok b h' (g(c := s'))"
proof -
  from expand_leaf_fields [OF assms(3,4,5,6)] obtain action where
    f: "action \<in> set (untried_actions (cells h n))"
       "c = next_free h" "next_free h' = Suc (next_free h)"
       "cells h' c = MCTSNode (Some n) (Some action) (legal_actions b s')"
       "child_nodes (cells h' n) = AList.update action c (child_nodes (cells h n))"
       "untried_actions (cells h' n) = remove1 action (untried_actions (cells h n))"
       "\<forall>j. j \<noteq> n \<and> j \<noteq> c \<longrightarrow> cells h' j = cells h j"
    by blast
  have nc: "n \<noteq> c" using n f(2) by simp
  have d: "distinct (map fst (child_nodes (cells h n)) @ untried_actions (cells h n))"
    and u: "set (map fst (child_nodes (cells h n))) \<union> set (untried_actions (cells h n))
            = set (legal_actions b (g n))"
    using actions_okD [OF ao n] by simp_all
  have fresh: "action \<notin> set (map fst (child_nodes (cells h n)))"
    using d f(1) by auto
  have keys: "map fst (child_nodes (cells h' n)) = map fst (child_nodes (cells h n)) @ [action]"
    using fresh by (simp add: f(5) update_keys)
  show ?thesis
    unfolding actions_ok_def
  proof (intro allI impI)
    fix m assume m: "m < next_free h'"
    show "distinct (map fst (child_nodes (cells h' m)) @ untried_actions (cells h' m))
          \<and> set (map fst (child_nodes (cells h' m))) \<union> set (untried_actions (cells h' m))
             = set (legal_actions b ((g(c := s')) m))"
    proof (cases "m = c")
      case True
      then show ?thesis
        using db f(4) unfolding distinct_board_def by (simp add: MCTSNode_def)
    next
      case False
      then have mlt: "m < next_free h" using m f(2,3) by simp
      show ?thesis
      proof (cases "m = n")
        case True
        have "distinct (map fst (child_nodes (cells h' n)) @ untried_actions (cells h' n))"
          using d f(1) fresh unfolding keys f(6) by auto
        moreover have "set (map fst (child_nodes (cells h' n)))
              \<union> set (untried_actions (cells h' n)) = set (legal_actions b (g n))"
          using d f(1) u unfolding keys f(6) by auto
        ultimately show ?thesis using True nc by simp
      next
        case False
        then have "cells h' m = cells h m" using \<open>m \<noteq> c\<close> f(7) by simp
        then show ?thesis using actions_okD [OF ao mlt] \<open>m \<noteq> c\<close> by simp
      qed
    qed
  qed
qed

text \<open>
  What \<^verbatim>\<open>backpropagate\<close> leaves unchanged when it returns, and what it does to the visit
  counts: they never decrease, the starting node ends up visited, and whenever the count
  of a node goes up, its parent ends up visited.
\<close>

lemma backpropagate_framed:
  assumes "backpropagate h x won = Some h'"
  shows "framed h x h'"
proof (rule backpropagate.raw_induct [where P = "\<lambda>h x won h'. framed h x h'", OF _ assms])
  fix bp :: "'a heap \<Rightarrow> nat option \<Rightarrow> real \<Rightarrow> 'a heap option"
  fix h :: "'a heap" and node won h'
  assume hyp: "\<And>h node won y. bp h node won = Some y \<Longrightarrow> framed h node y"
    and eq: "(case node of
               None \<Rightarrow> Some h
             | Some n \<Rightarrow>
                 bp (put h n ((cells h n)\<lparr>visits := visits (cells h n) + 1,
                                         wins := wins (cells h n) + won\<rparr>))
                   (parent (cells h n)) won) = Some h'"
  show "framed h node h'"
  proof (cases node)
    case None
    then show ?thesis using eq by (simp add: framed_def)
  next
    case (Some n)
    let ?h1 = "put h n ((cells h n)\<lparr>visits := visits (cells h n) + 1,
                                    wins := wins (cells h n) + won\<rparr>)"
    have call: "bp ?h1 (parent (cells h n)) won = Some h'"
      using eq Some by simp
    note IH = hyp [OF call, unfolded framed_def]
    have nf: "next_free ?h1 = next_free h" by (simp add: put_def)
    have same: "\<And>m. parent (cells ?h1 m) = parent (cells h m)
                  \<and> parent_action (cells ?h1 m) = parent_action (cells h m)
                  \<and> child_nodes (cells ?h1 m) = child_nodes (cells h m)
                  \<and> untried_actions (cells ?h1 m) = untried_actions (cells h m)"
      by (simp add: put_def)
    have mono: "\<And>m. visits (cells h m) \<le> visits (cells h' m)"
    proof -
      fix m
      have "visits (cells h m) \<le> visits (cells ?h1 m)" by (simp add: put_def)
      also have "\<dots> \<le> visits (cells h' m)" using IH by blast
      finally show "visits (cells h m) \<le> visits (cells h' m)" .
    qed
    have start: "0 < visits (cells h' n)"
    proof -
      have "0 < visits (cells ?h1 n)" by (simp add: put_def)
      also have "\<dots> \<le> visits (cells h' n)" using IH by blast
      finally show ?thesis .
    qed
    have up: "\<And>m p. visits (cells h m) < visits (cells h' m) \<Longrightarrow> parent (cells h m) = Some p
                \<Longrightarrow> 0 < visits (cells h' p)"
    proof -
      fix m p
      assume lt: "visits (cells h m) < visits (cells h' m)" and pm: "parent (cells h m) = Some p"
      show "0 < visits (cells h' p)"
      proof (cases "m = n")
        case True
        then have "parent (cells h n) = Some p" using pm by simp
        then show ?thesis using IH by simp
      next
        case False
        then have "visits (cells ?h1 m) < visits (cells h' m)" using lt by (simp add: put_def)
        moreover have "parent (cells ?h1 m) = Some p" using pm same by simp
        ultimately show ?thesis using IH by blast
      qed
    qed
    have "next_free h' = next_free h" using IH nf by simp
    moreover have "\<forall>m. parent (cells h' m) = parent (cells h m)
                \<and> parent_action (cells h' m) = parent_action (cells h m)
                \<and> child_nodes (cells h' m) = child_nodes (cells h m)
                \<and> untried_actions (cells h' m) = untried_actions (cells h m)"
      using IH same by simp
    ultimately show ?thesis
      unfolding framed_def using mono start up Some by blast
  qed
qed

lemma backpropagate_frame:
  assumes "backpropagate h x won = Some h'"
  shows "next_free h' = next_free h
         \<and> (\<forall>m. parent (cells h' m) = parent (cells h m)
                \<and> parent_action (cells h' m) = parent_action (cells h m)
                \<and> child_nodes (cells h' m) = child_nodes (cells h m)
                \<and> untried_actions (cells h' m) = untried_actions (cells h m)
                \<and> visits (cells h m) \<le> visits (cells h' m)
                \<and> (visits (cells h m) < visits (cells h' m) \<longrightarrow>
                     (\<forall>p. parent (cells h m) = Some p \<longrightarrow> 0 < visits (cells h' p))))
         \<and> (\<forall>n. x = Some n \<longrightarrow> 0 < visits (cells h' n))"
  using backpropagate_framed [OF assms] unfolding framed_def .

lemma links_ok_backpropagate:
  assumes "links_ok b h g" and "backpropagate h x won = Some h'"
  shows "links_ok b h' g"
  using assms(1) backpropagate_frame [OF assms(2)]
  unfolding links_ok_def by simp

lemma actions_ok_backpropagate:
  assumes "actions_ok b h g" and "backpropagate h x won = Some h'"
  shows "actions_ok b h' g"
  using assms(1) backpropagate_frame [OF assms(2)]
  unfolding actions_ok_def by simp

lemma live_ok_backpropagate:
  assumes l: "links_ok b h g" and v: "live_ok b h g"
    and bp: "backpropagate h x won = Some h'"
  shows "live_ok b h' g"
proof -
  note fr = backpropagate_frame [OF bp]
  have nf: "next_free h' = next_free h" using fr by simp
  have cn: "\<And>m. child_nodes (cells h' m) = child_nodes (cells h m)"
    and un: "\<And>m. untried_actions (cells h' m) = untried_actions (cells h m)"
    and mono: "\<And>m. visits (cells h m) \<le> visits (cells h' m)"
    using fr by simp_all
  have up: "\<And>m p. visits (cells h m) < visits (cells h' m) \<Longrightarrow> parent (cells h m) = Some p
              \<Longrightarrow> 0 < visits (cells h' p)"
    using fr by blast
  show ?thesis
    unfolding live_ok_def nf cn un
  proof (intro allI impI conjI)
    fix m assume "m < next_free h"
      and "\<not> is_ended b (g m) \<and> untried_actions (cells h m) = []"
    then show "child_nodes (cells h m) \<noteq> []" using live_okD(1) [OF v] by blast
  next
    fix m assume m: "m < next_free h"
    show "\<forall>(a, c) \<in> set (child_nodes (cells h m)).
            0 < visits (cells h' c) \<longrightarrow> 0 < visits (cells h' m)"
    proof (clarify)
      fix a c assume mem: "(a, c) \<in> set (child_nodes (cells h m))"
        and pos: "0 < visits (cells h' c)"
      have pc: "parent (cells h c) = Some m" using links_okD [OF l m mem] by simp
      show "0 < visits (cells h' m)"
      proof (cases "visits (cells h c) < visits (cells h' c)")
        case True
        then show ?thesis using up pc by blast
      next
        case False
        then have "visits (cells h c) = visits (cells h' c)" using mono [of c] by simp
        then have "0 < visits (cells h c)" using pos by simp
        then have "0 < visits (cells h m)" using live_okD(2) [OF v m] mem by auto
        then show ?thesis using mono [of m] by simp
      qed
    qed
  qed
qed

text \<open>
  Selection in a tree with well-formed links, when it returns a pair: the node is an
  object of the store and the state is the one that belongs to it.
\<close>

lemma best_child_loop_v_member:
  assumes "best_child_loop_v h n identity items None NInf = Inr (Some best)"
  shows "best \<in> snd ` set items"
proof (cases "items = []")
  case True
  then show ?thesis using assms by simp
next
  case False
  from assms have "py_max (\<lambda>child. ucb_v (cells h child) (cells h n) identity) (map snd items)
      = Inr best"
    unfolding best_child_loop_v_py_max [OF False] by (simp split: sum.splits)
  from py_max_member [OF this] show ?thesis by simp
qed

lemma traverse_nodes_v_returns:
  assumes l: "links_ok b h g" and "n < next_free h"
    and "traverse_nodes_v b h n (g n) identity = Some (Inr (n', s'))"
  shows "n' < next_free h \<and> s' = g n'"
  using assms(2,3)
proof (induction "next_free h - n" arbitrary: n rule: less_induct)
  case less
  show ?case
  proof (cases "is_ended b (g n) \<or> untried_actions (cells h n) \<noteq> []")
    case True
    then show ?thesis
      using less.prems by (auto simp: traverse_nodes_v_stop)
  next
    case False
    then have ne: "\<not> is_ended b (g n)" and un: "untried_actions (cells h n) = []" by simp_all
    let ?sel = "best_child_loop_v h n identity (child_nodes (cells h n)) None NInf"
    from less.prems(2) ne un obtain best where sel: "?sel = Inr (Some best)"
      by (subst (asm) traverse_nodes_v.simps) (auto split: sum.splits option.splits)
    from best_child_loop_v_member [OF sel] obtain a where
      mem: "(a, best) \<in> set (child_nodes (cells h n))" by auto
    note lk = links_okD [OF l less.prems(1) mem]
    have "traverse_nodes_v b h best (g best) identity = Some (Inr (n', s'))"
      using traverse_nodes_v_move [OF ne un sel] less.prems(2) lk by simp
    moreover have "next_free h - best < next_free h - n" using lk by linarith
    ultimately show ?thesis using less.hyps lk by blast
  qed
qed

lemma traverse_nodes_m_returns:
  assumes l: "links_ok b h g" and "n < next_free h"
    and "traverse_nodes_m b h n (g n) identity = Some (Inr (n', s'))"
  shows "n' < next_free h \<and> s' = g n'"
  using assms(2,3)
proof (induction "next_free h - n" arbitrary: n rule: less_induct)
  case less
  show ?case
  proof (cases "is_ended b (g n) \<or> untried_actions (cells h n) \<noteq> []")
    case True
    then show ?thesis
      using less.prems by (auto simp: traverse_nodes_m_stop)
  next
    case False
    then have ne: "\<not> is_ended b (g n)" and un: "untried_actions (cells h n) = []" by simp_all
    let ?sel = "py_max (\<lambda>child. ucb_m (cells h child) (cells h n) identity)
                  (map snd (child_nodes (cells h n)))"
    from less.prems(2) ne un obtain best where sel: "?sel = Inr best"
      by (subst (asm) traverse_nodes_m.simps) (auto split: sum.splits option.splits)
    from py_max_member [OF sel] obtain a where
      mem: "(a, best) \<in> set (child_nodes (cells h n))" by auto
    note lk = links_okD [OF l less.prems(1) mem]
    have "traverse_nodes_m b h best (g best) identity = Some (Inr (n', s'))"
      using traverse_nodes_m_move [OF ne un sel] less.prems(2) lk by simp
    moreover have "next_free h - best < next_free h - n" using lk by linarith
    ultimately show ?thesis using less.hyps lk by blast
  qed
qed

lemma update_fresh_key: "k \<notin> fst ` set al \<Longrightarrow> AList.update k v al = al @ [(k, v)]"
  by (induction al) auto

lemma rooted_expand:
  assumes ro: "rooted h" and ao: "actions_ok b h g"
    and "\<not> is_ended b (g n)" and "untried_actions (cells h n) \<noteq> []"
    and n: "n < next_free h" and "expand_leaf b h rs n (g n) = Inr (h', c, s', rs')"
  shows "rooted h'"
proof -
  from expand_leaf_fields [OF assms(3,4,5,6)] obtain action where
    f: "action \<in> set (untried_actions (cells h n))"
       "c = next_free h" "next_free h' = Suc (next_free h)"
       "child_nodes (cells h' n) = AList.update action c (child_nodes (cells h n))"
       "\<forall>j. j \<noteq> n \<and> j \<noteq> c \<longrightarrow> cells h' j = cells h j"
    by blast
  have "distinct (map fst (child_nodes (cells h n)) @ untried_actions (cells h n))"
    using actions_okD(1) [OF ao n] .
  then have "action \<notin> fst ` set (child_nodes (cells h n))"
    using f(1) by auto
  then have kids: "child_nodes (cells h' n) = child_nodes (cells h n) @ [(action, c)]"
    using f(4) by (simp add: update_fresh_key)
  show ?thesis
    unfolding rooted_def
  proof (intro allI impI)
    fix x assume x: "x < next_free h'" and x0: "x \<noteq> 0"
    show "\<exists>m a. m < x \<and> (a, x) \<in> set (child_nodes (cells h' m))"
    proof (cases "x = c")
      case True
      then show ?thesis using n f(2) kids by (intro exI [of _ n] exI [of _ action]) simp
    next
      case False
      then have "x < next_free h" using x f(2,3) by simp
      then obtain m a where m: "m < x" "(a, x) \<in> set (child_nodes (cells h m))"
        using ro x0 unfolding rooted_def by blast
      have mc: "m \<noteq> c" using m(1) \<open>x < next_free h\<close> f(2) by simp
      have "(a, x) \<in> set (child_nodes (cells h' m))"
      proof (cases "m = n")
        case True
        then show ?thesis using m(2) kids by simp
      next
        case False
        then show ?thesis using m(2) mc f(5) by simp
      qed
      then show ?thesis using m(1) by blast
    qed
  qed
qed

lemma rooted_backpropagate:
  assumes "rooted h" and "backpropagate h x won = Some h'"
  shows "rooted h'"
  using assms(1) backpropagate_frame [OF assms(2)]
  unfolding rooted_def by simp

lemma search_inv_init:
  "search_inv b s (fst (alloc empty_heap (MCTSNode None None (legal_actions b s)))) (\<lambda>_. s)"
  unfolding search_inv_def links_ok_def live_ok_def actions_ok_def rooted_def
    board_ok_def distinct_board_def
  by (auto simp: alloc_def empty_heap_def MCTSNode_def)

lemma search_inv_expand_phase:
  assumes inv: "search_inv b s h g" and node: "node < next_free h"
    and x: "(if \<not> is_ended b (g node) then expand_leaf b h rs node (g node)
             else Inr (h, node, g node, rs)) = Inr (h1, node1, cur1, rs1)"
  shows "\<exists>g1. search_inv b s h1 g1 \<and> next_free h \<le> next_free h1
               \<and> (\<forall>n < next_free h. g1 n = g n)"
proof (cases "is_ended b (g node) \<or> untried_actions (cells h node) = []")
  case True
  then have "h1 = h" using x by (auto simp: expand_leaf_noop split: if_splits)
  then show ?thesis using inv by (intro exI [of _ g]) simp
next
  case False
  then have ne: "\<not> is_ended b (g node)" and un: "untried_actions (cells h node) \<noteq> []"
    by simp_all
  have ex: "expand_leaf b h rs node (g node) = Inr (h1, node1, cur1, rs1)"
    using x ne by simp
  have l: "links_ok b h g" and g0: "g 0 = s" and nf: "0 < next_free h"
    using inv unfolding search_inv_def by simp_all
  from expand_leaf_fields [OF ne un node ex] have
    c: "node1 = next_free h" and nf1: "next_free h1 = Suc (next_free h)"
    by blast+
  let ?g1 = "g(node1 := cur1)"
  have "?g1 0 = s" using g0 c nf by simp
  moreover have "0 < next_free h1" using nf1 by simp
  moreover have "links_ok b h1 ?g1"
    using l ne un node ex by (rule links_ok_expand)
  moreover have "board_ok b \<longrightarrow> live_ok b h1 ?g1"
  proof
    assume bo: "board_ok b"
    then have "live_ok b h g" using inv unfolding search_inv_def by simp
    from l this bo ne un node ex show "live_ok b h1 ?g1" by (rule live_ok_expand)
  qed
  moreover have "distinct_board b \<longrightarrow> actions_ok b h1 ?g1 \<and> rooted h1"
  proof
    assume db: "distinct_board b"
    then have ao: "actions_ok b h g" and ro: "rooted h"
      using inv unfolding search_inv_def by simp_all
    have "actions_ok b h1 ?g1" using ao db ne un node ex by (rule actions_ok_expand)
    moreover have "rooted h1" using ro ao ne un node ex by (rule rooted_expand)
    ultimately show "actions_ok b h1 ?g1 \<and> rooted h1" by simp
  qed
  ultimately have "search_inv b s h1 ?g1" unfolding search_inv_def by simp
  then show ?thesis using c nf1 by (intro exI [of _ ?g1]) simp
qed

lemma search_inv_backpropagate:
  assumes inv: "search_inv b s h g" and bp: "backpropagate h x won = Some h'"
  shows "search_inv b s h' g"
proof -
  have l: "links_ok b h g" using inv unfolding search_inv_def by simp
  have "next_free h' = next_free h" using backpropagate_frame [OF bp] by simp
  moreover have "links_ok b h' g" using l bp by (rule links_ok_backpropagate)
  moreover have "board_ok b \<longrightarrow> live_ok b h' g"
    using inv l bp live_ok_backpropagate unfolding search_inv_def by blast
  moreover have "distinct_board b \<longrightarrow> actions_ok b h' g \<and> rooted h'"
    using inv bp actions_ok_backpropagate rooted_backpropagate
    unfolding search_inv_def by blast
  ultimately show ?thesis using inv unfolding search_inv_def by simp
qed

lemma think_iter_v_inv:
  assumes g: "search_inv b s h g"
    and it: "think_iter_v b identity 0 s h rs = Some (Inr (h', rs'))"
  shows "\<exists>g'. search_inv b s h' g' \<and> next_free h \<le> next_free h'
               \<and> (\<forall>n < next_free h. g' n = g n)"
proof -
  from g have l: "links_ok b h g" and g0: "g 0 = s" and nf: "0 < next_free h"
    unfolding search_inv_def by simp_all
  from it obtain node cur h1 node1 cur1 rs1 final points v where
    t: "traverse_nodes_v b h 0 s identity = Some (Inr (node, cur))"
    and x: "(if \<not> is_ended b cur then expand_leaf b h rs node cur
             else Inr (h, node, cur, rs)) = Inr (h1, node1, cur1, rs1)"
    and "rollout_v b rs1 cur1 = Some (Inr (final, rs'))"
    and "points_values b final = Some points" and "points identity = Some v"
    and bp: "backpropagate h1 (Some node1)
               (if v = 1 then 1 else if v = - 1 then 0 else 1 / 2) = Some h'"
    by (rule think_iter_v_phases)
  from traverse_nodes_v_returns [OF l nf, of identity node cur] t g0
  have node: "node < next_free h" and cur: "cur = g node" by simp_all
  from search_inv_expand_phase [OF g node, of rs h1 node1 cur1 rs1] x cur
  obtain g1 where g1: "search_inv b s h1 g1" "next_free h \<le> next_free h1"
    "\<forall>n < next_free h. g1 n = g n" by blast
  have "next_free h' = next_free h1" using backpropagate_frame [OF bp] by simp
  then show ?thesis
    using search_inv_backpropagate [OF g1(1) bp] g1(2,3) by (intro exI [of _ g1]) simp
qed

lemma think_iter_m_inv:
  assumes g: "search_inv b s h g"
    and it: "think_iter_m b truthy identity 0 s h rs = Some (Inr (h', rs'))"
  shows "\<exists>g'. search_inv b s h' g' \<and> next_free h \<le> next_free h'
               \<and> (\<forall>n < next_free h. g' n = g n)"
proof -
  from g have l: "links_ok b h g" and g0: "g 0 = s" and nf: "0 < next_free h"
    unfolding search_inv_def by simp_all
  from it obtain node cur h1 node1 cur1 rs1 final points where
    t: "traverse_nodes_m b h 0 s identity = Some (Inr (node, cur))"
    and x: "(if \<not> is_ended b cur then expand_leaf b h rs node cur
             else Inr (h, node, cur, rs)) = Inr (h1, node1, cur1, rs1)"
    and "rollout_m b truthy rs1 cur1 = Some (Inr (final, rs'))"
    and "points_values b final = Some points"
    and bp: "backpropagate h1 (Some node1)
               (case points identity of None \<Rightarrow> 0 | Some v \<Rightarrow> v) = Some h'"
    by (rule think_iter_m_phases)
  from traverse_nodes_m_returns [OF l nf, of identity node cur] t g0
  have node: "node < next_free h" and cur: "cur = g node" by simp_all
  from search_inv_expand_phase [OF g node, of rs h1 node1 cur1 rs1] x cur
  obtain g1 where g1: "search_inv b s h1 g1" "next_free h \<le> next_free h1"
    "\<forall>n < next_free h. g1 n = g n" by blast
  have "next_free h' = next_free h1" using backpropagate_frame [OF bp] by simp
  then show ?thesis
    using search_inv_backpropagate [OF g1(1) bp] g1(2,3) by (intro exI [of _ g1]) simp
qed

text \<open>
  Any number of passes keeps the invariant; the assignment of states to the nodes that
  exist before the passes stays as it is.
\<close>

lemma repeat_iter_search_inv:
  assumes step: "\<And>h g rs h' rs'. search_inv b s h g \<Longrightarrow> body h rs = Some (Inr (h', rs')) \<Longrightarrow>
            \<exists>g'. search_inv b s h' g' \<and> next_free h \<le> next_free h'
                 \<and> (\<forall>n < next_free h. g' n = g n)"
    and "search_inv b s h g" and "repeat_iter body k h rs = Some (Inr (h', rs'))"
  shows "\<exists>g'. search_inv b s h' g' \<and> next_free h \<le> next_free h'
               \<and> (\<forall>n < next_free h. g' n = g n)"
  using assms(2,3)
proof (induction k arbitrary: h g rs)
  case 0
  then show ?case by (intro exI [of _ g]) simp
next
  case (Suc k)
  from Suc.prems(2) obtain h1 rs1 where b: "body h rs = Some (Inr (h1, rs1))"
    and r: "repeat_iter body k h1 rs1 = Some (Inr (h', rs'))"
    by (auto split: option.splits sum.splits)
  from step [OF Suc.prems(1) b] obtain g1 where
    g1: "search_inv b s h1 g1" "next_free h \<le> next_free h1" "\<forall>n < next_free h. g1 n = g n"
    by blast
  from Suc.IH [OF g1(1) r] obtain g' where
    g': "search_inv b s h' g'" "next_free h1 \<le> next_free h'" "\<forall>n < next_free h1. g' n = g1 n"
    by blast
  have "next_free h \<le> next_free h'" using g1(2) g'(2) by simp
  moreover have "\<forall>n < next_free h. g' n = g n" using g1(2,3) g'(3) by auto
  ultimately show ?case using g'(1) by (intro exI [of _ g']) simp
qed

lemma think_v_search_inv:
  assumes "search_inv b s h g"
    and "repeat_iter (think_iter_v b identity 0 s) k h rs = Some (Inr (h', rs'))"
  shows "\<exists>g'. search_inv b s h' g' \<and> next_free h \<le> next_free h'
               \<and> (\<forall>n < next_free h. g' n = g n)"
  using think_iter_v_inv assms by (rule repeat_iter_search_inv)

lemma think_m_search_inv:
  assumes "search_inv b s h g"
    and "repeat_iter (think_iter_m b truthy identity 0 s) k h rs = Some (Inr (h', rs'))"
  shows "\<exists>g'. search_inv b s h' g' \<and> next_free h \<le> next_free h'
               \<and> (\<forall>n < next_free h. g' n = g n)"
  using think_iter_m_inv assms by (rule repeat_iter_search_inv)

text \<open>
  In particular, on a board where every state that has not ended has a legal action,
  every store that the loop of \<^verbatim>\<open>think\<close> reaches holds a well-formed tree.
\<close>

lemma think_v_reaches_tree_ok:
  assumes "board_ok b"
    and "repeat_iter (think_iter_v b identity 0 s) k
           (fst (alloc empty_heap (MCTSNode None None (legal_actions b s)))) rs
         = Some (Inr (h, rs'))"
  shows "\<exists>g. g 0 = s \<and> 0 < next_free h \<and> tree_ok b h g"
  using assms(1) think_v_search_inv [OF search_inv_init assms(2)]
  unfolding search_inv_def tree_ok_def by blast

lemma think_m_reaches_tree_ok:
  assumes "board_ok b"
    and "repeat_iter (think_iter_m b truthy identity 0 s) k
           (fst (alloc empty_heap (MCTSNode None None (legal_actions b s)))) rs
         = Some (Inr (h, rs'))"
  shows "\<exists>g. g 0 = s \<and> 0 < next_free h \<and> tree_ok b h g"
  using assms(1) think_m_search_inv [OF search_inv_init assms(2)]
  unfolding search_inv_def tree_ok_def by blast

lemma actions_ok_counts:
  assumes "distinct_board b" and ao: "actions_ok b h g"
  shows "action_counts b h g"
  unfolding action_counts_def
proof (intro allI impI)
  fix n assume n: "n < next_free h"
  let ?ks = "map fst (child_nodes (cells h n))"
  let ?us = "untried_actions (cells h n)"
  have d: "distinct (?ks @ ?us)" and u: "set ?ks \<union> set ?us = set (legal_actions b (g n))"
    using actions_okD [OF ao n] by simp_all
  have dl: "distinct (legal_actions b (g n))"
    using assms(1) unfolding distinct_board_def by simp
  have "length (?ks @ ?us) = card (set (?ks @ ?us))"
    using d by (simp only: distinct_card)
  also have "\<dots> = card (set (legal_actions b (g n)))" using u by simp
  also have "\<dots> = length (legal_actions b (g n))" using dl by (rule distinct_card)
  finally have "length (child_nodes (cells h n)) + length ?us = length (legal_actions b (g n))"
    by simp
  moreover have "set ?ks \<inter> set ?us = {}" using d by auto
  moreover have "set ?ks \<subseteq> set (legal_actions b (g n))" using u by auto
  ultimately show "length (child_nodes (cells h n)) + length ?us
          = length (legal_actions b (g n))
        \<and> set ?ks \<inter> set ?us = {} \<and> set ?ks \<subseteq> set (legal_actions b (g n))"
    by simp
qed

lemma action_counts_agree:
  assumes "action_counts b h g" and "\<forall>n < next_free h. g' n = g n"
  shows "action_counts b h g'"
  using assms unfolding action_counts_def by simp

lemma search_inv_creation_states:
  assumes "search_inv b s h g" and "distinct_board b"
  shows "creation_states b h s g"
proof -
  have l: "links_ok b h g" and g0: "g 0 = s" and ro: "rooted h"
    using assms unfolding search_inv_def by simp_all
  have "\<forall>n < next_free h. \<forall>(a, c) \<in> set (child_nodes (cells h n)).
             c < next_free h \<and> g c = next_state b (g n) a"
  proof (intro allI impI, clarify)
    fix n a c
    assume "n < next_free h" and "(a, c) \<in> set (child_nodes (cells h n))"
    from links_okD [OF l this] show "c < next_free h \<and> g c = next_state b (g n) a"
      by simp
  qed
  then show ?thesis
    using g0 ro unfolding creation_states_def rooted_def by simp
qed

lemma search_counts:
  assumes db: "distinct_board b" and g: "search_inv b s h g"
    and g': "search_inv b s h' g'" and ag: "\<forall>n < next_free h. g' n = g n"
    and le: "next_free h \<le> next_free h'"
  shows "\<exists>g. creation_states b h' s g \<and> action_counts b h g \<and> action_counts b h' g
             \<and> next_free h \<le> next_free h'"
proof -
  have "actions_ok b h g" and "actions_ok b h' g'"
    using db g g' unfolding search_inv_def by simp_all
  then have "action_counts b h g" and c': "action_counts b h' g'"
    using db actions_ok_counts by blast+
  then have "action_counts b h g'" using ag action_counts_agree by blast
  moreover have "creation_states b h' s g'"
    using g' db by (rule search_inv_creation_states)
  ultimately show ?thesis using c' le by blast
qed

text \<open>
  C8. On a board that lists the legal actions of a state without repetition, take the
  store \<open>h\<close> after any number of passes of the loop of \<^verbatim>\<open>think\<close> (selection, expansion,
  rollout, backpropagation) and the store \<open>h'\<close> after any number of further passes. With
  \<open>g\<close> the assignment of creation states to the nodes of \<open>h'\<close>, every node of \<open>h\<close> and
  every node of \<open>h'\<close> has \<open>len(children) + len(untried_actions)\<close> equal to the number of
  legal actions at its creation state, children keys that are legal actions there, and no
  child key among its untried actions; so the sum at a node is the same in \<open>h\<close> and \<open>h'\<close>.
\<close>

theorem action_counts_invariant:
  fixes bv :: "('s, 'a, int) board" and bm :: "('t, 'c, 'c) board"
  shows "(distinct_board bv
          \<and> repeat_iter (think_iter_v bv idv 0 sv) kv
              (fst (alloc empty_heap (MCTSNode None None (legal_actions bv sv)))) rsv
              = Some (Inr (hv, rsv1))
          \<and> repeat_iter (think_iter_v bv idv 0 sv) jv hv rsv1 = Some (Inr (hv', rsv2))
          \<longrightarrow> (\<exists>g. creation_states bv hv' sv g \<and> action_counts bv hv g
                    \<and> action_counts bv hv' g \<and> next_free hv \<le> next_free hv'))
         \<and> (distinct_board bm
          \<and> repeat_iter (think_iter_m bm truthy idm 0 sm) km
              (fst (alloc empty_heap (MCTSNode None None (legal_actions bm sm)))) rsm
              = Some (Inr (hm, rsm1))
          \<and> repeat_iter (think_iter_m bm truthy idm 0 sm) jm hm rsm1 = Some (Inr (hm', rsm2))
          \<longrightarrow> (\<exists>g. creation_states bm hm' sm g \<and> action_counts bm hm g
                    \<and> action_counts bm hm' g \<and> next_free hm \<le> next_free hm'))"
proof (intro conjI impI)
  assume a: "distinct_board bv
          \<and> repeat_iter (think_iter_v bv idv 0 sv) kv
              (fst (alloc empty_heap (MCTSNode None None (legal_actions bv sv)))) rsv
              = Some (Inr (hv, rsv1))
          \<and> repeat_iter (think_iter_v bv idv 0 sv) jv hv rsv1 = Some (Inr (hv', rsv2))"
  then have db: "distinct_board bv"
    and r1: "repeat_iter (think_iter_v bv idv 0 sv) kv
              (fst (alloc empty_heap (MCTSNode None None (legal_actions bv sv)))) rsv
              = Some (Inr (hv, rsv1))"
    and r2: "repeat_iter (think_iter_v bv idv 0 sv) jv hv rsv1 = Some (Inr (hv', rsv2))"
    by simp_all
  have i0: "search_inv bv sv
      (fst (alloc empty_heap (MCTSNode None None (legal_actions bv sv)))) (\<lambda>_. sv)"
    by (rule search_inv_init)
  from think_v_search_inv [OF i0 r1] obtain g where
    g: "search_inv bv sv hv g" by blast
  from think_v_search_inv [OF g r2] obtain g' where
    g': "search_inv bv sv hv' g'" "next_free hv \<le> next_free hv'"
      "\<forall>n < next_free hv. g' n = g n"
    by blast
  from search_counts [OF db g g'(1) g'(3) g'(2)] show "\<exists>g. creation_states bv hv' sv g \<and> action_counts bv hv g
                    \<and> action_counts bv hv' g \<and> next_free hv \<le> next_free hv'"
    .
next
  assume a: "distinct_board bm
          \<and> repeat_iter (think_iter_m bm truthy idm 0 sm) km
              (fst (alloc empty_heap (MCTSNode None None (legal_actions bm sm)))) rsm
              = Some (Inr (hm, rsm1))
          \<and> repeat_iter (think_iter_m bm truthy idm 0 sm) jm hm rsm1 = Some (Inr (hm', rsm2))"
  then have db: "distinct_board bm"
    and r1: "repeat_iter (think_iter_m bm truthy idm 0 sm) km
              (fst (alloc empty_heap (MCTSNode None None (legal_actions bm sm)))) rsm
              = Some (Inr (hm, rsm1))"
    and r2: "repeat_iter (think_iter_m bm truthy idm 0 sm) jm hm rsm1 = Some (Inr (hm', rsm2))"
    by simp_all
  have i0: "search_inv bm sm
      (fst (alloc empty_heap (MCTSNode None None (legal_actions bm sm)))) (\<lambda>_. sm)"
    by (rule search_inv_init)
  from think_m_search_inv [OF i0 r1] obtain g where
    g: "search_inv bm sm hm g" by blast
  from think_m_search_inv [OF g r2] obtain g' where
    g': "search_inv bm sm hm' g'" "next_free hm \<le> next_free hm'"
      "\<forall>n < next_free hm. g' n = g n"
    by blast
  from search_counts [OF db g g'(1) g'(3) g'(2)] show "\<exists>g. creation_states bm hm' sm g \<and> action_counts bm hm g
                    \<and> action_counts bm hm' g \<and> next_free hm \<le> next_free hm'"
    .
qed

lemma demo_board_distinct: "distinct_board (demo_board p)"
  by (simp add: distinct_board_def demo_board_def)

lemma demo_root_heap_init:
  "fst (alloc empty_heap (MCTSNode None None (legal_actions (demo_board p) 0))) = demo_root_heap"
  by (simp add: demo_root_heap_def demo_board_def)

lemma repeat_iter_one:
  "body h rs = Some (Inr (h', rs')) \<Longrightarrow> repeat_iter body 1 h rs = Some (Inr (h', rs'))"
  by simp

theorem action_counts_invariant_witness:
  "\<exists>hv' rsv2 hm' rsm2.
     distinct_board (demo_board (1::int))
     \<and> repeat_iter (think_iter_v (demo_board (1::int)) 1 0 0) 0
         (fst (alloc empty_heap (MCTSNode None None (legal_actions (demo_board (1::int)) 0))))
         (sconst 0) = Some (Inr (demo_root_heap, sconst 0))
     \<and> repeat_iter (think_iter_v (demo_board (1::int)) 1 0 0) 1 demo_root_heap (sconst 0)
         = Some (Inr (hv', rsv2))
     \<and> (\<exists>g. creation_states (demo_board (1::int)) hv' 0 g
            \<and> action_counts (demo_board (1::int)) demo_root_heap g
            \<and> action_counts (demo_board (1::int)) hv' g
            \<and> next_free demo_root_heap \<le> next_free hv')
     \<and> distinct_board (demo_board (1::nat))
     \<and> repeat_iter (think_iter_m (demo_board (1::nat)) truthy_nat 1 0 0) 0
         (fst (alloc empty_heap (MCTSNode None None (legal_actions (demo_board (1::nat)) 0))))
         (sconst 2) = Some (Inr (demo_root_heap, sconst 2))
     \<and> repeat_iter (think_iter_m (demo_board (1::nat)) truthy_nat 1 0 0) 1 demo_root_heap
         (sconst 2) = Some (Inr (hm', rsm2))
     \<and> (\<exists>g. creation_states (demo_board (1::nat)) hm' 0 g
            \<and> action_counts (demo_board (1::nat)) demo_root_heap g
            \<and> action_counts (demo_board (1::nat)) hm' g
            \<and> next_free demo_root_heap \<le> next_free hm')"
proof -
  obtain hv' rsv2 where
    v: "think_iter_v (demo_board 1) 1 0 0 demo_root_heap (sconst 0) = Some (Inr (hv', rsv2))"
    using demo_pass_v(1) by (auto simp: credited_def split: option.splits sum.splits)
  obtain hm' rsm2 where
    m: "think_iter_m (demo_board 1) truthy_nat 1 0 0 demo_root_heap (sconst 2)
          = Some (Inr (hm', rsm2))"
    using demo_pass_m(3) by (auto simp: credited_def split: option.splits sum.splits)
  have v0: "repeat_iter (think_iter_v (demo_board (1::int)) 1 0 0) 0
         (fst (alloc empty_heap (MCTSNode None None (legal_actions (demo_board (1::int)) 0))))
         (sconst 0) = Some (Inr (demo_root_heap, sconst 0))"
    by (simp add: demo_root_heap_init)
  have v1: "repeat_iter (think_iter_v (demo_board (1::int)) 1 0 0) 1 demo_root_heap (sconst 0)
         = Some (Inr (hv', rsv2))"
    using v by (rule repeat_iter_one)
  have m0: "repeat_iter (think_iter_m (demo_board (1::nat)) truthy_nat 1 0 0) 0
         (fst (alloc empty_heap (MCTSNode None None (legal_actions (demo_board (1::nat)) 0))))
         (sconst 2) = Some (Inr (demo_root_heap, sconst 2))"
    by (simp add: demo_root_heap_init)
  have m1: "repeat_iter (think_iter_m (demo_board (1::nat)) truthy_nat 1 0 0) 1 demo_root_heap
         (sconst 2) = Some (Inr (hm', rsm2))"
    using m by (rule repeat_iter_one)
  have dv: "distinct_board (demo_board (1::int))" and dm: "distinct_board (demo_board (1::nat))"
    by (rule demo_board_distinct)+
  note cv = action_counts_invariant [THEN conjunct1, rule_format, OF conjI [OF dv conjI [OF v0 v1]]]
  note cm = action_counts_invariant [THEN conjunct2, rule_format, OF conjI [OF dm conjI [OF m0 m1]]]
  show ?thesis
    by (rule exI [of _ hv'], rule exI [of _ rsv2], rule exI [of _ hm'], rule exI [of _ rsm2])
      (intro conjI dv v0 v1 cv dm m0 m1 cm)
qed

end
